theory Spec2Isabelle
  imports Complex_Main "HOL-Library.Sublist" "HOL-Library.Log_Nat" "HOL-Library.AList"
begin

section \<open>The expense tracker screen (src/Main.js)\<close>

text \<open>
  The component of src/Main.js keeps a list of expense rows loaded from a local SQLite
  table, a form (amount, category, note), a filter selector and the id of the row being
  edited. This theory embeds its three pieces of logic: \<open>getFilteredExpenses\<close>,
  \<open>calculateTotals\<close> and \<open>saveExpense\<close>, together with the semantics of the JavaScript
  built-ins they call (Number addition, property access on a plain object,
  \<open>Object.keys\<close>, and the \<open>Date\<close> operations), taken from the ECMAScript specification.
\<close>

subsection \<open>JavaScript numbers\<close>

text \<open>
  A Number is an IEEE-754 binary64 value. Finite values are represented by the rational
  they denote (\<open>-0\<close> and \<open>+0\<close> are identified, they are equal as numbers and both falsy);
  the other values are the two infinities and NaN.
\<close>

datatype jsnum = Fin rat | PInf | NInf | NaN

text \<open>
  The result of an arithmetic operation is the exact result rounded to the nearest
  binary64 value, ties to the value with an even significand. The significand has 53
  bits, the least exponent of a unit in the last place is \<open>-1074\<close> (subnormal numbers),
  and a rounded magnitude of \<open>2\<^sup>1\<^sup>0\<^sup>2\<^sup>4\<close> or more is an infinity.
\<close>

definition ilog2 :: "rat \<Rightarrow> int" where
  \<comment> \<open>\<open>\<lfloor>log\<^sub>2 x\<rfloor>\<close> for \<open>x > 0\<close>\<close>
  "ilog2 x = (if 1 \<le> x then bitlen \<lfloor>x\<rfloor> - 1 else - bitlen (\<lceil>1 / x\<rceil> - 1))"

definition round_half_even :: "rat \<Rightarrow> int" where
  "round_half_even q =
     (let f = \<lfloor>q\<rfloor>; r = q - of_int f
      in if r < 1 / 2 then f else if 1 / 2 < r then f + 1 else if even f then f else f + 1)"

definition fl_round :: "rat \<Rightarrow> jsnum" where
  "fl_round x =
     (if x = 0 then Fin 0
      else
        let e = max (ilog2 \<bar>x\<bar> - 52) (- 1074);
            m = round_half_even (\<bar>x\<bar> / 2 powi e);
            v = of_int m * 2 powi e
        in if 2 powi 1024 \<le> v then (if 0 < x then PInf else NInf) else Fin (sgn x * v))"

text \<open>The \<open>+\<close> operator on two Numbers (Number::add).\<close>

fun js_add :: "jsnum \<Rightarrow> jsnum \<Rightarrow> jsnum" where
  "js_add NaN _ = NaN"
| "js_add _ NaN = NaN"
| "js_add PInf NInf = NaN"
| "js_add NInf PInf = NaN"
| "js_add PInf _ = PInf"
| "js_add _ PInf = PInf"
| "js_add NInf _ = NInf"
| "js_add _ NInf = NInf"
| "js_add (Fin x) (Fin y) = fl_round (x + y)"

subsection \<open>JavaScript values and plain objects\<close>

text \<open>
  The values that \<open>acc[item.category]\<close> and \<open>item.amount\<close> can hold in
  \<open>calculateTotals\<close>: \<open>undefined\<close>, \<open>null\<close>, a Number, a string, or an object inherited
  from \<open>Object.prototype\<close> (one of its functions, or the prototype itself for
  \<open>__proto__\<close>). The only strings that arise are concatenations of the text of such an
  object with the text of a number or of \<open>null\<close>; they are never empty and their text is
  not modelled.
\<close>

datatype jsval = Undefined | Null | Num jsnum | Str | Inherited

definition ToBoolean :: "jsval \<Rightarrow> bool" where
  "ToBoolean v =
     (case v of
        Undefined \<Rightarrow> False
      | Null \<Rightarrow> False
      | Num n \<Rightarrow> n \<noteq> Fin 0 \<and> n \<noteq> NaN
      | Str \<Rightarrow> True
      | Inherited \<Rightarrow> True)"

definition js_or :: "jsval \<Rightarrow> jsval \<Rightarrow> jsval" where
  \<comment> \<open>\<open>a || b\<close>\<close>
  "js_or a b = (if ToBoolean a then a else b)"

text \<open>
  \<open>a + b\<close>: numeric addition on two Numbers; \<open>null\<close> converts to 0 and \<open>undefined\<close> to
  NaN; when an operand is a string or an object (whose primitive value is a string) the
  result is the concatenation.
\<close>

fun js_plus :: "jsval \<Rightarrow> jsval \<Rightarrow> jsval" where
  "js_plus (Num a) (Num b) = Num (js_add a b)"
| "js_plus (Num a) Null = Num (js_add a (Fin 0))"
| "js_plus Null (Num b) = Num (js_add (Fin 0) b)"
| "js_plus Null Null = Num (js_add (Fin 0) (Fin 0))"
| "js_plus Undefined (Num b) = Num NaN"
| "js_plus (Num a) Undefined = Num NaN"
| "js_plus Undefined Undefined = Num NaN"
| "js_plus Undefined Null = Num NaN"
| "js_plus Null Undefined = Num NaN"
| "js_plus _ _ = Str"

text \<open>
  A plain object created by \<open>{}\<close>: its own string-keyed properties in the order of their
  creation. Every other property is looked up in \<open>Object.prototype\<close>.
\<close>

type_synonym jsobj = "(string \<times> jsval) list"

definition Object_prototype_names :: "string list" where
  "Object_prototype_names =
     [''constructor'', ''__defineGetter__'', ''__defineSetter__'', ''hasOwnProperty'',
      ''__lookupGetter__'', ''__lookupSetter__'', ''isPrototypeOf'', ''propertyIsEnumerable'',
      ''toString'', ''valueOf'', ''__proto__'', ''toLocaleString'']"

definition Get :: "jsobj \<Rightarrow> string \<Rightarrow> jsval" where
  \<comment> \<open>\<open>obj[k]\<close>\<close>
  "Get obj k =
     (case map_of obj k of
        Some v \<Rightarrow> v
      | None \<Rightarrow> if k \<in> set Object_prototype_names then Inherited else Undefined)"

text \<open>
  \<open>obj[k] = v\<close> for a primitive \<open>v\<close>: the inherited setter of \<open>__proto__\<close> ignores a value
  that is not an object; any other key becomes or stays an own property, a new one after
  the existing ones.
\<close>

definition Put :: "jsobj \<Rightarrow> string \<Rightarrow> jsval \<Rightarrow> jsobj" where
  "Put obj k v = (if k = ''__proto__'' then obj else AList.update k v obj)"

text \<open>
  \<open>Object.keys\<close> lists the own property keys that are array indices (canonical decimal
  numerals below \<open>2\<^sup>3\<^sup>2 - 1\<close>) in ascending numeric order, then the other keys in
  the order of their creation (OrdinaryOwnPropertyKeys).
\<close>

definition is_digit :: "char \<Rightarrow> bool" where
  "is_digit c = (48 \<le> (of_char c :: int) \<and> (of_char c :: int) \<le> 57)"

definition array_index :: "string \<Rightarrow> int" where
  "array_index s = foldl (\<lambda>n c. 10 * n + (of_char c - 48)) 0 s"

definition is_array_index :: "string \<Rightarrow> bool" where
  "is_array_index s =
     (s \<noteq> [] \<and> list_all is_digit s \<and> (hd s \<noteq> CHR ''0'' \<or> s = ''0'')
      \<and> array_index s < 4294967295)"

definition Object_keys :: "jsobj \<Rightarrow> string list" where
  "Object_keys obj =
     (let ks = map fst obj
      in sort_key array_index (filter is_array_index ks) @ filter (\<lambda>k. \<not> is_array_index k) ks)"

subsection \<open>Expense rows\<close>

text \<open>
  A row of the table \<open>expenses (id INTEGER PRIMARY KEY AUTOINCREMENT, amount REAL,
  category TEXT, note TEXT, date TEXT NOT NULL)\<close>, as \<open>getAllAsync\<close> returns it. The
  column \<open>amount\<close> may hold NULL, which is read as \<open>null\<close>: the amount is a Number
  (\<open>Some\<close>) or \<open>null\<close> (\<open>None\<close>).
\<close>

record expense =
  id' :: int
  amount :: "jsnum option"
  category :: string
  note' :: string
  date :: string

text \<open>
  \<open>item.amount\<close> as a value, and what \<open>+\<close> makes of it beside a Number: ToNumber of
  \<open>null\<close> is 0.
\<close>

definition js_value :: "jsnum option \<Rightarrow> jsval" where
  "js_value a = (case a of None \<Rightarrow> Null | Some n \<Rightarrow> Num n)"

definition ToNumber :: "jsnum option \<Rightarrow> jsnum" where
  "ToNumber a = (case a of None \<Rightarrow> Fin 0 | Some n \<Rightarrow> n)"

subsection \<open>The host environment\<close>

text \<open>
  What the JavaScript engine and the device supply and the source only calls:
  \<open>parseFloat\<close>, \<open>Date.parse\<close> (the time value of a date string, \<open>None\<close> for the NaN of
  an Invalid Date), \<open>Date.prototype.toISOString\<close>, and the offset of local time from UTC
  in milliseconds (the specification's LocalTZA: given a UTC time value when the flag is
  true, a local time value when it is false).
\<close>

record js_env =
  parseFloat :: "string \<Rightarrow> jsnum"
  Date_parse :: "string \<Rightarrow> int option"
  toISOString :: "int \<Rightarrow> string"
  LocalTZA :: "int \<Rightarrow> bool \<Rightarrow> int"

subsection \<open>Time values and the calendar (ECMAScript, Date objects)\<close>

text \<open>
  A time value is a number of milliseconds since 1 January 1970 UTC. The range limit
  of \<open>\<plusminus>8.64 \<times> 10\<^sup>1\<^sup>5\<close> ms that TimeClip enforces is far from any clock reading and is
  left out: time values are integers.
\<close>

definition msPerDay :: int where
  "msPerDay = 86400000"

definition Day :: "int \<Rightarrow> int" where
  "Day t = t div msPerDay"

definition TimeWithinDay :: "int \<Rightarrow> int" where
  "TimeWithinDay t = t mod msPerDay"

definition DaysInYear :: "int \<Rightarrow> int" where
  "DaysInYear y =
     (if y mod 4 \<noteq> 0 then 365
      else if y mod 100 \<noteq> 0 then 366
      else if y mod 400 \<noteq> 0 then 365
      else 366)"

definition DayFromYear :: "int \<Rightarrow> int" where
  "DayFromYear y =
     365 * (y - 1970) + (y - 1969) div 4 - (y - 1901) div 100 + (y - 1601) div 400"

lemma div_succ:
  fixes a n :: int assumes "0 < n"
  shows "(a + 1) div n = a div n + (if (a + 1) mod n = 0 then 1 else 0)"
proof -
  have eq: "a = n * (a div n) + a mod n" by simp
  have b: "0 \<le> a mod n" "a mod n < n" using assms by simp_all
  show ?thesis
  proof (cases "a mod n = n - 1")
    case True
    have "a + 1 = n * (a div n) + (a mod n + 1)" using eq by linarith
    also have "\<dots> = n * (a div n + 1)" using True by (simp add: algebra_simps)
    finally have e: "a + 1 = n * (a div n + 1)" .
    have "(a + 1) div n = a div n + 1" unfolding e using assms by simp
    moreover have "(a + 1) mod n = 0" unfolding e by simp
    ultimately show ?thesis by simp
  next
    case False
    then have r: "0 \<le> a mod n + 1" "a mod n + 1 < n" using b by simp_all
    have e: "a + 1 = (a mod n + 1) + n * (a div n)" using eq by linarith
    have "(a + 1) div n = (a mod n + 1) div n + a div n"
      unfolding e using assms by (subst div_mult_self2) simp_all
    then have d: "(a + 1) div n = a div n" using r by (simp add: div_pos_pos_trivial)
    have "(a + 1) mod n = (a mod n + 1) mod n"
      unfolding e by (subst mod_mult_self2) simp
    then have "(a + 1) mod n = a mod n + 1" using r by (simp add: mod_pos_pos_trivial)
    then show ?thesis using d b by simp
  qed
qed

lemma mod_shift: fixes y n k :: int shows "(y - n * k) mod n = y mod n"
proof -
  have "(y + n * (- k)) mod n = y mod n" by (rule mod_mult_self2)
  then show ?thesis by simp
qed

lemma DayFromYear_step: "DayFromYear (y + 1) = DayFromYear y + DaysInYear y"
proof -
  have a4: "(y + 1 - 1969) div 4 = (y - 1969) div 4 + (if y mod 4 = 0 then 1 else 0)"
  proof -
    have "(y - 1969 + 1) mod 4 = y mod 4" using mod_shift [of y 4 492] by simp
    then show ?thesis using div_succ [of 4 "y - 1969"] by (simp add: algebra_simps)
  qed
  have a100: "(y + 1 - 1901) div 100 = (y - 1901) div 100 + (if y mod 100 = 0 then 1 else 0)"
  proof -
    have "(y - 1901 + 1) mod 100 = y mod 100" using mod_shift [of y 100 19] by simp
    then show ?thesis using div_succ [of 100 "y - 1901"] by (simp add: algebra_simps)
  qed
  have a400: "(y + 1 - 1601) div 400 = (y - 1601) div 400 + (if y mod 400 = 0 then 1 else 0)"
  proof -
    have "(y - 1601 + 1) mod 400 = y mod 400" using mod_shift [of y 400 4] by simp
    then show ?thesis using div_succ [of 400 "y - 1601"] by (simp add: algebra_simps)
  qed
  have d1: "y mod 4 = 0" if "y mod 100 = 0"
  proof -
    have "(100::int) dvd y" using that by (simp add: mod_eq_0_iff_dvd)
    moreover have "(4::int) dvd 100" by simp
    ultimately have "4 dvd y" by (rule dvd_trans [rotated])
    then show ?thesis by (simp add: mod_eq_0_iff_dvd)
  qed
  have d2: "y mod 100 = 0" if "y mod 400 = 0"
  proof -
    have "(400::int) dvd y" using that by (simp add: mod_eq_0_iff_dvd)
    moreover have "(100::int) dvd 400" by simp
    ultimately have "100 dvd y" by (rule dvd_trans [rotated])
    then show ?thesis by (simp add: mod_eq_0_iff_dvd)
  qed
  show ?thesis
    unfolding DayFromYear_def DaysInYear_def a4 a100 a400
    using d1 d2 by auto
qed

lemma DaysInYear_cases: "DaysInYear y = 365 \<or> DaysInYear y = 366"
  by (simp add: DaysInYear_def)

lemma DayFromYear_less_step: "DayFromYear y < DayFromYear (y + 1)"
  using DaysInYear_cases [of y] by (auto simp: DayFromYear_step)

text \<open>
  YearFromTime is the largest year whose first day is not after the day of \<open>t\<close>. It is
  found by counting up from a year that is not after it.
\<close>

function year_search :: "int \<Rightarrow> int \<Rightarrow> int" where
  "year_search d y = (if DayFromYear (y + 1) \<le> d then year_search d (y + 1) else y)"
  by pat_completeness auto
termination
proof (relation "measure (\<lambda>(d, y). nat (d + 1 - DayFromYear (y + 1)))")
  show "wf (measure (\<lambda>(d, y). nat (d + 1 - DayFromYear (y + 1))))"
    by simp
next
  fix d y :: int
  assume "DayFromYear (y + 1) \<le> d"
  moreover have "DayFromYear (y + 1) < DayFromYear (y + 1 + 1)"
    by (rule DayFromYear_less_step)
  ultimately show "((d, y + 1), (d, y)) \<in> measure (\<lambda>(d, y). nat (d + 1 - DayFromYear (y + 1)))"
    by simp
qed

declare year_search.simps [simp del]

definition YearFromTime :: "int \<Rightarrow> int" where
  "YearFromTime t =
     (let d = Day t
      in year_search d (1970 + (if 0 \<le> d then d div 366 else d div 365 - 1)))"

definition InLeapYear :: "int \<Rightarrow> int" where
  "InLeapYear t = (if DaysInYear (YearFromTime t) = 366 then 1 else 0)"

definition DayWithinYear :: "int \<Rightarrow> int" where
  "DayWithinYear t = Day t - DayFromYear (YearFromTime t)"

definition MonthFromTime :: "int \<Rightarrow> int" where
  "MonthFromTime t =
     (let d = DayWithinYear t; l = InLeapYear t
      in if d < 31 then 0
         else if d < 59 + l then 1
         else if d < 90 + l then 2
         else if d < 120 + l then 3
         else if d < 151 + l then 4
         else if d < 181 + l then 5
         else if d < 212 + l then 6
         else if d < 243 + l then 7
         else if d < 273 + l then 8
         else if d < 304 + l then 9
         else if d < 334 + l then 10
         else 11)"

text \<open>The day within the year on which month \<open>m\<close> starts (\<open>l\<close> is 1 in a leap year).\<close>

definition month_start :: "int \<Rightarrow> int \<Rightarrow> int" where
  "month_start m l =
     (if m = 0 then 0
      else if m = 1 then 31
      else if m = 2 then 59 + l
      else if m = 3 then 90 + l
      else if m = 4 then 120 + l
      else if m = 5 then 151 + l
      else if m = 6 then 181 + l
      else if m = 7 then 212 + l
      else if m = 8 then 243 + l
      else if m = 9 then 273 + l
      else if m = 10 then 304 + l
      else 334 + l)"

definition DateFromTime :: "int \<Rightarrow> int" where
  "DateFromTime t =
     (let d = DayWithinYear t; l = InLeapYear t; m = MonthFromTime t
      in if m = 0 then d + 1
         else if m = 1 then d - 30
         else if m = 2 then d - 58 - l
         else if m = 3 then d - 89 - l
         else if m = 4 then d - 119 - l
         else if m = 5 then d - 150 - l
         else if m = 6 then d - 180 - l
         else if m = 7 then d - 211 - l
         else if m = 8 then d - 242 - l
         else if m = 9 then d - 272 - l
         else if m = 10 then d - 303 - l
         else d - 333 - l)"

definition WeekDay :: "int \<Rightarrow> int" where
  "WeekDay t = (Day t + 4) mod 7"

definition LocalTime :: "js_env \<Rightarrow> int \<Rightarrow> int" where
  "LocalTime env t = t + LocalTZA env t True"

definition UTC :: "js_env \<Rightarrow> int \<Rightarrow> int" where
  "UTC env t = t - LocalTZA env t False"

definition MakeTime :: "int \<Rightarrow> int \<Rightarrow> int \<Rightarrow> int \<Rightarrow> int" where
  "MakeTime hour minute sec ms = hour * 3600000 + minute * 60000 + sec * 1000 + ms"

text \<open>
  MakeDay finds the time value \<open>t\<close> of day 1 of the month (\<open>ym\<close>, \<open>mn\<close>) and returns
  \<open>Day t + date - 1\<close>.
\<close>

definition MakeDay :: "int \<Rightarrow> int \<Rightarrow> int \<Rightarrow> int" where
  "MakeDay year month dt =
     (let ym = year + month div 12;
          mn = month mod 12;
          t = msPerDay * (DayFromYear ym + month_start mn (if DaysInYear ym = 366 then 1 else 0))
      in Day t + dt - 1)"

definition MakeDate :: "int \<Rightarrow> int \<Rightarrow> int" where
  "MakeDate day time = day * msPerDay + time"

definition MakeFullYear :: "int \<Rightarrow> int" where
  "MakeFullYear year = (if 0 \<le> year \<and> year \<le> 99 then 1900 + year else year)"

text \<open>The methods of a Date object, on its time value.\<close>

definition getFullYear :: "js_env \<Rightarrow> int \<Rightarrow> int" where
  "getFullYear env t = YearFromTime (LocalTime env t)"

definition getMonth :: "js_env \<Rightarrow> int \<Rightarrow> int" where
  "getMonth env t = MonthFromTime (LocalTime env t)"

definition getDate :: "js_env \<Rightarrow> int \<Rightarrow> int" where
  "getDate env t = DateFromTime (LocalTime env t)"

definition getDay :: "js_env \<Rightarrow> int \<Rightarrow> int" where
  "getDay env t = WeekDay (LocalTime env t)"

definition setDate :: "js_env \<Rightarrow> int \<Rightarrow> int \<Rightarrow> int" where
  "setDate env tv dt =
     (let t = LocalTime env tv;
          newDate = MakeDate (MakeDay (YearFromTime t) (MonthFromTime t) dt) (TimeWithinDay t)
      in UTC env newDate)"

definition setHours :: "js_env \<Rightarrow> int \<Rightarrow> int \<Rightarrow> int \<Rightarrow> int \<Rightarrow> int \<Rightarrow> int" where
  "setHours env tv hour minute sec ms =
     (let t = LocalTime env tv
      in UTC env (MakeDate (Day t) (MakeTime hour minute sec ms)))"

text \<open>\<open>new Date(year, month, date)\<close>: the remaining fields default to 0.\<close>

definition Date_of_fields :: "js_env \<Rightarrow> int \<Rightarrow> int \<Rightarrow> int \<Rightarrow> int" where
  "Date_of_fields env year month dt =
     UTC env (MakeDate (MakeDay (MakeFullYear year) month dt) (MakeTime 0 0 0 0))"

text \<open>
  \<open>a >= b\<close> on two Date objects compares their time values; it is false when one of them
  is NaN. The right operand here is always a valid date.
\<close>

definition date_ge :: "int option \<Rightarrow> int \<Rightarrow> bool" where
  "date_ge a b = (case a of None \<Rightarrow> False | Some t \<Rightarrow> b \<le> t)"

subsection \<open>getFilteredExpenses\<close>

text \<open>
  The state variables \<open>filter\<close> and \<open>expenses\<close> and the clock reading \<open>new Date()\<close> are
  arguments. The selector is the string the source compares with \<open>===\<close>.
\<close>

definition getFilteredExpenses :: "js_env \<Rightarrow> int \<Rightarrow> string \<Rightarrow> expense list \<Rightarrow> expense list" where
  "getFilteredExpenses env now filter' expenses =
     (if filter' = ''All'' then expenses
      else
        let startOfWeek = setHours env (setDate env now (getDate env now - getDay env now)) 0 0 0 0;
            startOfMonth = Date_of_fields env (getFullYear env now) (getMonth env now) 1
        in filter (\<lambda>ex.
             let exDate = Date_parse env (date ex)
             in if filter' = ''Week'' then date_ge exDate startOfWeek
                else if filter' = ''Month'' then date_ge exDate startOfMonth
                else True) expenses)"

subsection \<open>calculateTotals\<close>

text \<open>
  \<open>visibleExpenses\<close> is the argument. The first \<open>reduce\<close> adds the amounts to 0 from left
  to right (the sum is a Number throughout, so \<open>sum + item.amount\<close> is a numeric
  addition); the second stores \<open>(acc[item.category] || 0) + item.amount\<close> under the
  item's category in an object that starts empty.
\<close>

record totals =
  total :: jsnum
  byCategory :: jsobj

text \<open>The callback of the second \<open>reduce\<close>.\<close>

definition byCategory_step :: "jsobj \<Rightarrow> expense \<Rightarrow> jsobj" where
  "byCategory_step acc item =
     Put acc (category item)
       (js_plus (js_or (Get acc (category item)) (Num (Fin 0))) (js_value (amount item)))"

definition calculateTotals :: "expense list \<Rightarrow> totals" where
  "calculateTotals visibleExpenses =
     \<lparr> total = foldl (\<lambda>sum item. js_add sum (ToNumber (amount item))) (Fin 0) visibleExpenses,
       byCategory = foldl byCategory_step [] visibleExpenses \<rparr>"

subsection \<open>saveExpense\<close>

text \<open>
  The table is the list of its rows in the order of insertion, with the largest id the
  AUTOINCREMENT key has handed out (the \<open>sqlite_sequence\<close> entry). The database calls
  are taken to succeed.
\<close>

record database =
  rows :: "expense list"
  seq :: int

text \<open>
  The state of the component: the rows last loaded, the three form fields (the strings
  \<open>amount\<close>, \<open>category\<close> and \<open>note\<close> of the source) and \<open>editingId\<close>, which is \<open>null\<close>
  or the id of a row.
\<close>

record app_state =
  state_expenses :: "expense list"
  form_amount :: string
  form_category :: string
  form_note :: string
  editingId :: "int option"

datatype error = ValidationError

text \<open>
  A Number bound to a parameter is stored as a REAL, except NaN, which SQLite stores as
  NULL.
\<close>

definition sql_real :: "jsnum \<Rightarrow> jsnum option" where
  "sql_real n = (if n = NaN then None else Some n)"

text \<open>
  \<open>UPDATE expenses SET amount = ?, category = ?, note = ? WHERE id = ?\<close>, with the
  value of \<open>editingId\<close> bound to the last parameter.
\<close>

definition sql_update :: "jsnum \<Rightarrow> string \<Rightarrow> string \<Rightarrow> int option \<Rightarrow> database \<Rightarrow> database" where
  "sql_update a c n i db =
     db\<lparr> rows := map (\<lambda>r. if Some (id' r) = i then r\<lparr> amount := sql_real a, category := c, note' := n \<rparr>
                               else r)
                    (rows db) \<rparr>"

text \<open>
  \<open>INSERT INTO expenses (amount, category, note, date) VALUES (?, ?, ?, ?)\<close>: the new
  row gets an id one above every id in the table and every id handed out before.
\<close>

definition sql_insert :: "jsnum \<Rightarrow> string \<Rightarrow> string \<Rightarrow> string \<Rightarrow> database \<Rightarrow> database" where
  "sql_insert a c n d db =
     (let i = fold max (map id' (rows db)) (seq db) + 1
      in \<lparr> rows = rows db @ [\<lparr> id' = i, amount = sql_real a, category = c, note' = n, date = d \<rparr>],
           seq = i \<rparr>)"

text \<open>\<open>SELECT * FROM expenses ORDER BY id DESC\<close>\<close>

definition loadExpenses :: "database \<Rightarrow> expense list" where
  "loadExpenses db = rev (sort_key id' (rows db))"

text \<open>
  \<open>if (editingId)\<close>: \<open>null\<close> and 0 are falsy.
\<close>

definition truthy_id :: "int option \<Rightarrow> bool" where
  "truthy_id e = (case e of None \<Rightarrow> False | Some i \<Rightarrow> i \<noteq> 0)"

text \<open>
  \<open>saveExpense\<close> on the state, the table and the clock reading. \<open>!amount\<close> and
  \<open>!category\<close> hold for the empty string. The function has no path that throws or
  rejects: its outcome is always \<open>Inr\<close>.
\<close>

definition saveExpense :: "js_env \<Rightarrow> int \<Rightarrow> app_state \<times> database \<Rightarrow> error + app_state \<times> database" where
  "saveExpense env now sd =
     (let st = fst sd; db = snd sd
      in if form_amount st = [] \<or> form_category st = [] then Inr (st, db)
         else
           let (st1, db1) =
                 (if truthy_id (editingId st)
                  then (st\<lparr> editingId := None \<rparr>,
                        sql_update (parseFloat env (form_amount st)) (form_category st)
                          (form_note st) (editingId st) db)
                  else (st,
                        sql_insert (parseFloat env (form_amount st)) (form_category st)
                          (form_note st) (toISOString env now) db))
           in Inr (st1\<lparr> form_amount := [], form_category := [], form_note := [],
                        state_expenses := loadExpenses db1 \<rparr>, db1))"

section \<open>Notions used in the statements\<close>

subsection \<open>Boundaries of the current week and month\<close>

text \<open>
  For a local time value \<open>t\<close>: the local time value of 00:00:00.000 on the latest day
  on or before the day of \<open>t\<close> that is a Sunday (\<open>WeekDay = 0\<close>), and of 00:00:00.000 on
  day 1 of the month of \<open>t\<close>. That they are these instants is part of the theorems that
  use them.
\<close>

definition week_start :: "int \<Rightarrow> int" where
  "week_start t = (Day t - WeekDay t) * msPerDay"

definition month_first :: "int \<Rightarrow> int" where
  "month_first t = (Day t - DateFromTime t + 1) * msPerDay"

text \<open>
  The conversion of a local time value \<open>x\<close> to UTC and back stays on the same day.
  This holds for every \<open>x\<close> in a zone with a fixed offset; it can fail only where a
  change of the zone's offset moves the local time across midnight.
\<close>

definition same_local_day :: "js_env \<Rightarrow> int \<Rightarrow> bool" where
  "same_local_day env x = (Day (LocalTime env (UTC env x)) = Day x)"

subsection \<open>Sums\<close>

text \<open>The elements of a list in the order of their first occurrence.\<close>

definition first_occurrences :: "'a list \<Rightarrow> 'a list" where
  "first_occurrences xs = rev (remdups (rev xs))"

text \<open>
  The amounts of the records of category \<open>c\<close>, added from left to right as Numbers.
\<close>

definition category_sum :: "string \<Rightarrow> expense list \<Rightarrow> jsnum" where
  "category_sum c xs =
     foldl js_add (Fin 0) (map (\<lambda>x. ToNumber (amount x)) (filter (\<lambda>x. category x = c) xs))"

text \<open>An amount that is a finite Number.\<close>

definition is_finite :: "jsnum option \<Rightarrow> bool" where
  "is_finite a = (case a of Some (Fin x) \<Rightarrow> True | _ \<Rightarrow> False)"

text \<open>
  The exact arithmetic: the rational a finite Number denotes, the exact sum of the
  amounts of a list, and the exact sum of their absolute values.
\<close>

definition fin_value :: "jsnum \<Rightarrow> rat" where
  "fin_value n = (case n of Fin q \<Rightarrow> q | _ \<Rightarrow> 0)"

definition exact_sum :: "expense list \<Rightarrow> rat" where
  "exact_sum xs = sum_list (map (\<lambda>x. fin_value (ToNumber (amount x))) xs)"

definition abs_sum :: "expense list \<Rightarrow> rat" where
  "abs_sum xs = sum_list (map (\<lambda>x. \<bar>fin_value (ToNumber (amount x))\<bar>) xs)"

text \<open>An amount that is finite and at most \<open>A\<close> in magnitude; an amount that is a whole number.\<close>

definition amount_within :: "rat \<Rightarrow> expense \<Rightarrow> bool" where
  "amount_within A x = (case amount x of Some (Fin q) \<Rightarrow> \<bar>q\<bar> \<le> A | _ \<Rightarrow> False)"

definition whole_amount :: "expense \<Rightarrow> bool" where
  "whole_amount x = (case amount x of Some (Fin q) \<Rightarrow> q = of_int \<lfloor>q\<rfloor> | _ \<Rightarrow> False)"

text \<open>The exact sum of the values of the own properties of an object.\<close>

definition num_value :: "jsval \<Rightarrow> rat" where
  "num_value v = (case v of Num n \<Rightarrow> fin_value n | _ \<Rightarrow> 0)"

definition sum_values :: "jsobj \<Rightarrow> rat" where
  "sum_values obj = sum_list (map (\<lambda>p. num_value (snd p)) obj)"

subsection \<open>A concrete environment and concrete rows\<close>

text \<open>
  The examples run on a device in a zone five hours ahead of UTC with no change of
  offset, at 2025-11-05T10:00:00Z (time value 1762336800000, a Wednesday). The
  environment answers the calls the examples make: \<open>parseFloat\<close> of \<open>12.50\<close> (any other
  text used is not numeric), and \<open>Date.parse\<close> of six ISO strings (any other text used is
  not a date).
\<close>

definition demo_env :: js_env where
  "demo_env =
     \<lparr> parseFloat = (\<lambda>s. if s = ''12.50'' then Fin (25 / 2) else NaN),
       Date_parse = map_of
         [(''2025-11-05T04:00:00.000Z'', 1762315200000),
          (''2025-11-01T19:00:00.000Z'', 1762023600000),
          (''2025-11-01T18:59:59.999Z'', 1762023599999),
          (''2025-10-31T19:00:00.000Z'', 1761937200000),
          (''2025-10-31T18:59:59.999Z'', 1761937199999),
          (''2026-01-01T00:00:00.000Z'', 1767225600000)],
       toISOString = (\<lambda>t. ''2025-11-05T10:00:00.000Z''),
       LocalTZA = (\<lambda>t b. 18000000) \<rparr>"

definition dated_row :: "int \<Rightarrow> string \<Rightarrow> expense" where
  "dated_row i d = \<lparr> id' = i, amount = Some (Fin 10), category = ''Food'', note' = [], date = d \<rparr>"

definition demo_rows :: "expense list" where
  "demo_rows =
     [dated_row 7 ''2026-01-01T00:00:00.000Z'',
      dated_row 6 ''2025-11-05T04:00:00.000Z'',
      dated_row 5 ''yesterday'',
      dated_row 4 ''2025-11-01T19:00:00.000Z'',
      dated_row 3 ''2025-11-01T18:59:59.999Z'',
      dated_row 2 ''2025-10-31T19:00:00.000Z'',
      dated_row 1 ''2025-10-31T18:59:59.999Z'']"

definition expense_of :: "int \<Rightarrow> jsnum \<Rightarrow> string \<Rightarrow> expense" where
  "expense_of i a c =
     \<lparr> id' = i, amount = Some a, category = c, note' = [],
       date = ''2025-11-05T04:00:00.000Z'' \<rparr>"

definition demo_db :: database where
  "demo_db =
     \<lparr> rows = [\<lparr> id' = 1, amount = Some (Fin 10), category = ''Food'', note' = ''lunch'',
                  date = ''2025-10-31T19:00:00.000Z'' \<rparr>,
               \<lparr> id' = 2, amount = Some (Fin 5), category = ''Bus'', note' = [],
                  date = ''2025-11-01T19:00:00.000Z'' \<rparr>],
       seq = 2 \<rparr>"

definition demo_state :: "string \<Rightarrow> string \<Rightarrow> int option \<Rightarrow> app_state" where
  "demo_state a c e =
     \<lparr> state_expenses = loadExpenses demo_db, form_amount = a, form_category = c,
       form_note = ''taxi'', editingId = e \<rparr>"

section \<open>Facts about the built-ins\<close>

subsection \<open>The calendar\<close>

lemma div_bounds: fixes a n :: int assumes "0 < n"
  shows "n * (a div n) \<le> a" "a < n * (a div n) + n"
proof -
  have "a = n * (a div n) + a mod n" by simp
  moreover have "0 \<le> a mod n" "a mod n < n" using assms by simp_all
  ultimately show "n * (a div n) \<le> a" "a < n * (a div n) + n" by linarith+
qed

lemma year_search_start:
  "DayFromYear (1970 + (if 0 \<le> d then d div 366 else d div 365 - 1)) \<le> d"
proof (cases "0 \<le> d")
  case True
  define k where "k = d div 366"
  have k: "0 \<le> k" "366 * k \<le> d" using True div_bounds [of 366 d] by (simp_all add: k_def)
  define A where "A = (1970 + k - 1969) div 4"
  define B where "B = (1970 + k - 1901) div 100"
  define C where "C = (1970 + k - 1601) div 400"
  have a: "4 * A \<le> k + 1" using div_bounds(1) [of 4 "1970 + k - 1969"] by (simp add: A_def)
  have b: "k + 69 < 100 * B + 100" using div_bounds(2) [of 100 "1970 + k - 1901"] by (simp add: B_def)
  have c: "400 * C \<le> k + 369" using div_bounds(1) [of 400 "1970 + k - 1601"] by (simp add: C_def)
  have "A - B + C \<le> k"
  proof (cases "2 \<le> k")
    case True
    then show ?thesis using a b c by linarith
  next
    case False
    then have "A \<le> 0" "0 \<le> B" "C \<le> 0" using a b c k(1) by linarith+
    then show ?thesis using k(1) by linarith
  qed
  then have "DayFromYear (1970 + k) \<le> 366 * k"
    unfolding DayFromYear_def A_def B_def C_def by simp
  then show ?thesis using True k by (simp add: k_def)
next
  case False
  define k where "k = d div 365 - 1"
  have k: "k < 0" "365 * k \<le> d - 365" using False div_bounds [of 365 d] by (simp_all add: k_def)
  define A where "A = (1970 + k - 1969) div 4"
  define B where "B = (1970 + k - 1901) div 100"
  define C where "C = (1970 + k - 1601) div 400"
  have a: "4 * A \<le> k + 1" using div_bounds(1) [of 4 "1970 + k - 1969"] by (simp add: A_def)
  have b: "k + 69 < 100 * B + 100" using div_bounds(2) [of 100 "1970 + k - 1901"] by (simp add: B_def)
  have c: "400 * C \<le> k + 369" using div_bounds(1) [of 400 "1970 + k - 1601"] by (simp add: C_def)
  have "A - B + C \<le> 365" using a b c k(1) by linarith
  then have "DayFromYear (1970 + k) \<le> d" using k(2)
    unfolding DayFromYear_def A_def B_def C_def by simp
  then show ?thesis using False by (simp add: k_def)
qed

lemma year_search_bounds:
  "DayFromYear y \<le> d \<Longrightarrow>
   DayFromYear (year_search d y) \<le> d \<and> d < DayFromYear (year_search d y + 1)"
proof (induction d y rule: year_search.induct)
  case (1 d y)
  show ?case
  proof (cases "DayFromYear (y + 1) \<le> d")
    case True
    then show ?thesis using "1.IH" by (subst (1 2) year_search.simps) simp
  next
    case False
    then show ?thesis using "1.prems" by (subst (1 2) year_search.simps) simp
  qed
qed

lemma YearFromTime_bounds:
  "DayFromYear (YearFromTime t) \<le> Day t" "Day t < DayFromYear (YearFromTime t + 1)"
  using year_search_bounds [OF year_search_start, of "Day t"]
  by (simp_all add: YearFromTime_def Let_def)

lemma DayFromYear_mono: "y \<le> z \<Longrightarrow> DayFromYear y \<le> DayFromYear z"
proof (induction z rule: int_ge_induct)
  case base
  show ?case by simp
next
  case (step i)
  then show ?case using DayFromYear_less_step [of i] by simp
qed

lemma YearFromTime_unique:
  assumes "DayFromYear y \<le> Day t" "Day t < DayFromYear (y + 1)"
  shows "YearFromTime t = y"
proof (rule ccontr)
  assume ne: "YearFromTime t \<noteq> y"
  show False
  proof (cases "YearFromTime t < y")
    case True
    then have "DayFromYear (YearFromTime t + 1) \<le> DayFromYear y"
      by (intro DayFromYear_mono) simp
    then show False using YearFromTime_bounds(2) [of t] assms(1) by simp
  next
    case False
    then have "DayFromYear (y + 1) \<le> DayFromYear (YearFromTime t)"
      using ne by (intro DayFromYear_mono) simp
    then show False using YearFromTime_bounds(1) [of t] assms(2) by simp
  qed
qed

lemma DayWithinYear_bounds:
  "0 \<le> DayWithinYear t" "DayWithinYear t < DaysInYear (YearFromTime t)"
  using YearFromTime_bounds [of t] by (simp_all add: DayWithinYear_def DayFromYear_step)

lemma Day_times [simp]: "Day (x * msPerDay) = x" "Day (msPerDay * x) = x"
  by (simp_all add: Day_def msPerDay_def)

lemma TimeWithinDay_times [simp]: "TimeWithinDay (x * msPerDay) = 0"
  by (simp add: TimeWithinDay_def)

lemma Day_MakeDate: "0 \<le> tm \<Longrightarrow> tm < msPerDay \<Longrightarrow> Day (MakeDate d tm) = d"
  by (simp add: Day_def MakeDate_def msPerDay_def div_pos_pos_trivial)

lemma TimeWithinDay_bounds: "0 \<le> TimeWithinDay t" "TimeWithinDay t < msPerDay"
  by (simp_all add: TimeWithinDay_def msPerDay_def)

lemma Day_TimeWithinDay: "t = Day t * msPerDay + TimeWithinDay t"
  by (simp add: Day_def TimeWithinDay_def)

lemma InLeapYear_cases: "InLeapYear t = 0 \<or> InLeapYear t = 1"
  by (simp add: InLeapYear_def)

lemma DaysInYear_InLeapYear: "DaysInYear (YearFromTime t) = 365 + InLeapYear t"
  using DaysInYear_cases [of "YearFromTime t"] by (auto simp: InLeapYear_def)

lemma MonthFromTime_range: "0 \<le> MonthFromTime t" "MonthFromTime t \<le> 11"
  by (simp_all add: MonthFromTime_def Let_def)

lemma DateFromTime_eq:
  "DateFromTime t = DayWithinYear t - month_start (MonthFromTime t) (InLeapYear t) + 1"
  by (simp add: DateFromTime_def month_start_def Let_def)

lemma month_start_le:
  "0 \<le> m \<Longrightarrow> m \<le> 11 \<Longrightarrow> 0 \<le> l \<Longrightarrow> 0 \<le> month_start m l \<and> month_start m l \<le> 334 + l"
  by (simp add: month_start_def)

lemma month_start_MonthFromTime: "month_start (MonthFromTime t) (InLeapYear t) \<le> DayWithinYear t"
  using DayWithinYear_bounds(1) [of t] InLeapYear_cases [of t]
  by (auto simp: MonthFromTime_def month_start_def Let_def)

lemma DateFromTime_ge1: "1 \<le> DateFromTime t"
  using month_start_MonthFromTime [of t] by (simp add: DateFromTime_eq)

lemma MakeDay_same_month:
  "MakeDay (YearFromTime t) (MonthFromTime t) dt = Day t - DateFromTime t + dt"
proof -
  have m: "MonthFromTime t div 12 = 0" "MonthFromTime t mod 12 = MonthFromTime t"
    using MonthFromTime_range [of t] by (simp_all add: div_pos_pos_trivial mod_pos_pos_trivial)
  show ?thesis
    by (simp add: MakeDay_def m Let_def DateFromTime_eq DayWithinYear_def InLeapYear_def)
qed

lemma week_start_facts:
  "WeekDay (week_start t) = 0" "TimeWithinDay (week_start t) = 0"
  "week_start t \<le> t" "t < week_start t + 7 * msPerDay"
proof -
  show "WeekDay (week_start t) = 0"
    unfolding week_start_def WeekDay_def Day_times by presburger
  show "TimeWithinDay (week_start t) = 0" by (simp add: week_start_def)
  have w: "0 \<le> WeekDay t" "WeekDay t < 7" by (simp_all add: WeekDay_def)
  have t: "t = Day t * msPerDay + TimeWithinDay t" by (rule Day_TimeWithinDay)
  have e: "week_start t = Day t * msPerDay - WeekDay t * msPerDay"
    by (simp add: week_start_def algebra_simps)
  have p: "0 \<le> WeekDay t * msPerDay" "WeekDay t * msPerDay \<le> 6 * msPerDay"
    using w by (simp_all add: msPerDay_def)
  show "week_start t \<le> t" using t e p TimeWithinDay_bounds [of t] by linarith
  show "t < week_start t + 7 * msPerDay" using t e p TimeWithinDay_bounds [of t] by linarith
qed

lemma month_first_day: "Day (month_first t) = DayFromYear (YearFromTime t) + month_start (MonthFromTime t) (InLeapYear t)"
  by (simp add: month_first_def DateFromTime_eq DayWithinYear_def)

lemma YearFromTime_month_first: "YearFromTime (month_first t) = YearFromTime t"
proof (rule YearFromTime_unique)
  have ms: "0 \<le> month_start (MonthFromTime t) (InLeapYear t)"
     "month_start (MonthFromTime t) (InLeapYear t) \<le> 334 + InLeapYear t"
    using month_start_le [of "MonthFromTime t" "InLeapYear t"] MonthFromTime_range [of t]
      InLeapYear_cases [of t] by auto
  show "DayFromYear (YearFromTime t) \<le> Day (month_first t)"
    using ms by (simp add: month_first_day)
  show "Day (month_first t) < DayFromYear (YearFromTime t + 1)"
    using ms by (simp add: month_first_day DayFromYear_step DaysInYear_InLeapYear)
qed

lemma DayWithinYear_month_first: "DayWithinYear (month_first t) = month_start (MonthFromTime t) (InLeapYear t)"
  by (simp add: DayWithinYear_def YearFromTime_month_first month_first_day)

lemma InLeapYear_month_first: "InLeapYear (month_first t) = InLeapYear t"
  by (simp add: InLeapYear_def YearFromTime_month_first)

lemma MonthFromTime_month_start:
  assumes "DayWithinYear s = month_start m l" "InLeapYear s = l" "0 \<le> m" "m \<le> 11" "l = 0 \<or> l = 1"
  shows "MonthFromTime s = m"
proof -
  have l: "0 \<le> l" "l \<le> 1" using assms(5) by auto
  from assms(3,4) have "m = 0 \<or> m = 1 \<or> m = 2 \<or> m = 3 \<or> m = 4 \<or> m = 5 \<or> m = 6 \<or> m = 7
      \<or> m = 8 \<or> m = 9 \<or> m = 10 \<or> m = 11" by presburger
  then show ?thesis
  proof (elim disjE)
    assume "m = 0" then show ?thesis using assms(1,2) l by (simp add: MonthFromTime_def month_start_def)
  next
    assume "m = 1" then show ?thesis using assms(1,2) l by (simp add: MonthFromTime_def month_start_def)
  next
    assume "m = 2" then show ?thesis using assms(1,2) l by (simp add: MonthFromTime_def month_start_def)
  next
    assume "m = 3" then show ?thesis using assms(1,2) l by (simp add: MonthFromTime_def month_start_def)
  next
    assume "m = 4" then show ?thesis using assms(1,2) l by (simp add: MonthFromTime_def month_start_def)
  next
    assume "m = 5" then show ?thesis using assms(1,2) l by (simp add: MonthFromTime_def month_start_def)
  next
    assume "m = 6" then show ?thesis using assms(1,2) l by (simp add: MonthFromTime_def month_start_def)
  next
    assume "m = 7" then show ?thesis using assms(1,2) l by (simp add: MonthFromTime_def month_start_def)
  next
    assume "m = 8" then show ?thesis using assms(1,2) l by (simp add: MonthFromTime_def month_start_def)
  next
    assume "m = 9" then show ?thesis using assms(1,2) l by (simp add: MonthFromTime_def month_start_def)
  next
    assume "m = 10" then show ?thesis using assms(1,2) l by (simp add: MonthFromTime_def month_start_def)
  next
    assume "m = 11" then show ?thesis using assms(1,2) l by (simp add: MonthFromTime_def month_start_def)
  qed
qed

lemma MonthFromTime_month_first: "MonthFromTime (month_first t) = MonthFromTime t"
  by (rule MonthFromTime_month_start [OF DayWithinYear_month_first InLeapYear_month_first
        MonthFromTime_range InLeapYear_cases])

lemma DateFromTime_month_first: "DateFromTime (month_first t) = 1"
  by (simp add: DateFromTime_eq MonthFromTime_month_first InLeapYear_month_first DayWithinYear_month_first)

lemma month_first_le: "month_first t \<le> t"
proof -
  have "Day t - DateFromTime t + 1 \<le> Day t" using DateFromTime_ge1 [of t] by simp
  then have "(Day t - DateFromTime t + 1) * msPerDay \<le> Day t * msPerDay"
    by (simp add: msPerDay_def)
  then show ?thesis using Day_TimeWithinDay [of t] TimeWithinDay_bounds(1) [of t]
    by (simp add: month_first_def)
qed

lemma startOfWeek_eq:
  assumes "Day (LocalTime env (UTC env (MakeDate (Day (LocalTime env now) - WeekDay (LocalTime env now)) (TimeWithinDay (LocalTime env now)))))
          = Day (LocalTime env now) - WeekDay (LocalTime env now)"
  shows "setHours env (setDate env now (getDate env now - getDay env now)) 0 0 0 0
         = UTC env (week_start (LocalTime env now))"
proof -
  have "setDate env now (getDate env now - getDay env now)
        = UTC env (MakeDate (Day (LocalTime env now) - WeekDay (LocalTime env now)) (TimeWithinDay (LocalTime env now)))"
    by (simp add: setDate_def getDate_def getDay_def Let_def MakeDay_same_month)
  then show ?thesis using assms
    by (simp add: setHours_def Let_def MakeTime_def MakeDate_def week_start_def)
qed

lemma startOfMonth_eq:
  assumes "\<not> (0 \<le> YearFromTime (LocalTime env now) \<and> YearFromTime (LocalTime env now) \<le> 99)"
  shows "Date_of_fields env (getFullYear env now) (getMonth env now) 1
         = UTC env (month_first (LocalTime env now))"
proof -
  have y: "MakeFullYear (YearFromTime (LocalTime env now)) = YearFromTime (LocalTime env now)"
    using assms by (auto simp: MakeFullYear_def)
  show ?thesis
    by (simp add: Date_of_fields_def getFullYear_def getMonth_def y
        MakeDay_same_month MakeDate_def MakeTime_def month_first_def)
qed

lemmas calendar_eval = Day_def TimeWithinDay_def msPerDay_def WeekDay_def YearFromTime_def
  year_search.simps DayFromYear_def DaysInYear_def InLeapYear_def DayWithinYear_def
  MonthFromTime_def DateFromTime_def LocalTime_def UTC_def

subsection \<open>Rounding to binary64\<close>

lemma ilog2_bounds:
  assumes "0 < x"
  shows "2 powi (ilog2 x) \<le> x" "x < 2 powi (ilog2 x + 1)"
proof -
  have "2 powi (ilog2 x) \<le> x \<and> x < 2 powi (ilog2 x + 1)"
  proof (cases "1 \<le> x")
    case True
    define n where "n = \<lfloor>x\<rfloor>"
    have n: "0 < n" "of_int n \<le> x" "x < of_int n + 1"
      using True by (simp_all add: n_def) linarith+
    have b1: "1 \<le> bitlen n" using n(1) bitlen_eq_zero_iff [of n] bitlen_nonneg [of n] by linarith
    have bb: "2 ^ nat (bitlen n - 1) \<le> n" "n < 2 ^ nat (bitlen n)"
      using bitlen_bounds [OF n(1)] by simp_all
    have e: "ilog2 x = bitlen n - 1" using True by (simp add: ilog2_def n_def)
    have "(2::rat) powi (bitlen n - 1) = of_int (2 ^ nat (bitlen n - 1))"
      using b1 by (simp add: power_int_nonneg_exp)
    also have "\<dots> \<le> of_int n" using bb(1) by (simp only: of_int_le_iff)
    finally have lo: "2 powi (ilog2 x) \<le> x" using n(2) by (simp add: e)
    have "n + 1 \<le> 2 ^ nat (bitlen n)" using bb(2) by simp
    then have "(of_int (n + 1) :: rat) \<le> of_int (2 ^ nat (bitlen n))" by (simp only: of_int_le_iff)
    also have "\<dots> = 2 powi (bitlen n)" using b1 by (simp add: power_int_nonneg_exp)
    finally have "x < 2 powi (ilog2 x + 1)" using n(3) by (simp add: e)
    with lo show ?thesis by simp
  next
    case False
    define y where "y = 1 / x"
    define c where "c = \<lceil>y\<rceil>"
    have y1: "1 < y" using False assms by (simp add: y_def)
    have c: "y \<le> of_int c" "of_int c - 1 < y" by (simp_all add: c_def) linarith
    have c2: "2 \<le> c" using y1 c(1) by linarith
    define b where "b = bitlen (c - 1)"
    have b1: "1 \<le> b" using c2 bitlen_eq_zero_iff [of "c - 1"] bitlen_nonneg [of "c - 1"]
      by (simp add: b_def)
    have bb: "2 ^ nat (b - 1) \<le> c - 1" "c - 1 < 2 ^ nat b"
      using bitlen_bounds [of "c - 1"] c2 by (simp_all add: b_def)
    have e: "ilog2 x = - b" using False by (simp add: ilog2_def b_def c_def y_def)
    have "c \<le> 2 ^ nat b" using bb(2) by simp
    then have "(of_int c :: rat) \<le> of_int (2 ^ nat b)" by (simp only: of_int_le_iff)
    also have "\<dots> = 2 powi b" using b1 by (simp add: power_int_nonneg_exp)
    finally have "y \<le> 2 powi b" using c(1) by simp
    then have "1 / x \<le> 2 powi b" by (simp add: y_def)
    then have "1 \<le> 2 powi b * x" using assms by (simp add: field_simps)
    then have lo: "2 powi (- b) \<le> x" by (simp add: power_int_minus field_simps)
    have "(2::rat) powi (b - 1) = of_int (2 ^ nat (b - 1))"
      using b1 by (simp add: power_int_nonneg_exp)
    also have "\<dots> \<le> of_int (c - 1)" using bb(1) by (simp only: of_int_le_iff)
    also have "\<dots> < y" using c(2) by simp
    finally have "2 powi (b - 1) < 1 / x" by (simp add: y_def)
    then have "x * 2 powi (b - 1) < 1" using assms by (simp add: field_simps)
    moreover have p: "0 < (2::rat) powi (b - 1)" by simp
    ultimately have "x < 1 / 2 powi (b - 1)" by (simp only: pos_less_divide_eq)
    also have "1 / 2 powi (b - 1) = (2::rat) powi (- (b - 1))"
      by (simp only: power_int_minus_divide)
    finally have "x < 2 powi (- b + 1)" by simp
    with lo show ?thesis by (simp add: e)
  qed
  then show "2 powi (ilog2 x) \<le> x" "x < 2 powi (ilog2 x + 1)" by simp_all
qed

lemma round_half_even_of_int [simp]: "round_half_even (of_int n) = n"
  by (simp add: round_half_even_def)

lemma round_half_even_error: "\<bar>of_int (round_half_even q) - q\<bar> \<le> 1 / 2"
proof -
  have "of_int \<lfloor>q\<rfloor> \<le> q" "q < of_int \<lfloor>q\<rfloor> + 1" by simp_all linarith
  then show ?thesis by (auto simp: round_half_even_def Let_def abs_le_iff)
qed

lemma fl_round_error:
  assumes "\<bar>x\<bar> \<le> 2 ^ 1000"
  shows "\<exists>r. fl_round x = Fin r \<and> \<bar>r - x\<bar> \<le> \<bar>x\<bar> / 2 ^ 53 + 1 / 2 ^ 1075"
proof (cases "x = 0")
  case True
  then show ?thesis by (simp add: fl_round_def)
next
  case False
  define a where "a = \<bar>x\<bar>"
  define e where "e = max (ilog2 a - 52) (- 1074)"
  define p where "p = (2::rat) powi e"
  define m where "m = round_half_even (a / p)"
  define v where "v = of_int m * p"
  define eta :: rat where "eta = 1 / 2 ^ 1075"
  define big :: rat where "big = 2 ^ 1000"
  have a: "0 < a" using False by (simp add: a_def)
  have p: "0 < p" by (simp add: p_def)
  have "\<bar>of_int m - a / p\<bar> \<le> 1 / 2" unfolding m_def by (rule round_half_even_error)
  then have "\<bar>of_int m - a / p\<bar> * p \<le> 1 / 2 * p" using p by (intro mult_right_mono) simp_all
  moreover have "\<bar>of_int m - a / p\<bar> * p = \<bar>v - a\<bar>"
  proof -
    have "\<bar>of_int m - a / p\<bar> * p = \<bar>(of_int m - a / p) * p\<bar>" using p by (simp add: abs_mult)
    also have "(of_int m - a / p) * p = v - a" using p by (simp add: v_def algebra_simps)
    finally show ?thesis .
  qed
  ultimately have va: "\<bar>v - a\<bar> \<le> p / 2" by simp
  have half: "p / 2 \<le> a / 2 ^ 53 + eta"
  proof (cases "ilog2 a - 52 \<le> - 1074")
    case True
    then have "e = - 1074" by (simp add: e_def)
    then have "p = 1 / 2 ^ 1074" by (simp add: p_def power_int_minus_divide)
    then have "p / 2 = eta" by (simp add: eta_def)
    moreover have "0 \<le> a / 2 ^ 53" using a by simp
    ultimately show ?thesis by linarith
  next
    case False
    then have "e = ilog2 a - 52" by (simp add: e_def)
    then have "p = 2 powi (ilog2 a) / 2 ^ 52" by (simp add: p_def power_int_diff)
    moreover have "2 powi (ilog2 a) \<le> a" using a by (rule ilog2_bounds)
    ultimately have "p \<le> a / 2 ^ 52" by (simp add: divide_right_mono)
    then have "p / 2 \<le> a / 2 ^ 53" by simp
    moreover have "0 \<le> eta" by (simp add: eta_def)
    ultimately show ?thesis by linarith
  qed
  have ab: "a \<le> big" using assms by (simp add: a_def big_def)
  have "a / 2 ^ 53 \<le> a" using a by (simp add: field_simps)
  moreover have "eta \<le> 1" by (simp add: eta_def)
  moreover have "v - a \<le> p / 2" using va by linarith
  ultimately have "v \<le> 2 * big + 1" using half ab by linarith
  also have "\<dots> < 2 powi 1024" by (simp add: big_def)
  finally have no: "\<not> 2 powi 1024 \<le> v" by simp
  have r: "fl_round x = Fin (sgn x * v)"
    using False no by (simp add: fl_round_def Let_def a_def e_def p_def m_def v_def)
  have "sgn x * v - x = sgn x * (v - a)"
    using abs_sgn [of x] by (simp add: a_def algebra_simps)
  then have "\<bar>sgn x * v - x\<bar> = \<bar>sgn x\<bar> * \<bar>v - a\<bar>" by (simp add: abs_mult)
  also have "\<dots> = \<bar>v - a\<bar>" using False by (simp add: abs_sgn_eq)
  finally have "\<bar>sgn x * v - x\<bar> \<le> a / 2 ^ 53 + eta" using va half by linarith
  then show ?thesis using r by (simp add: a_def eta_def)
qed

lemma fl_round_of_int:
  assumes "\<bar>n\<bar> \<le> 2 ^ 53"
  shows "fl_round (of_int n) = Fin (of_int n)"
proof (cases "n = 0")
  case True
  then show ?thesis by (simp add: fl_round_def)
next
  case False
  define a :: rat where "a = of_int \<bar>n\<bar>"
  define L where "L = ilog2 a"
  define e where "e = max (L - 52) (- 1074)"
  have a1: "1 \<le> a" using False by (simp add: a_def)
  have a53: "a \<le> 2 ^ 53"
  proof -
    have "(of_int \<bar>n\<bar> :: rat) \<le> of_int (2 ^ 53)" using assms by (simp only: of_int_le_iff)
    then show ?thesis by (simp add: a_def)
  qed
  have lo: "2 powi L \<le> a" and hi: "a < 2 powi (L + 1)"
    using ilog2_bounds [of a] a1 by (simp_all add: L_def)
  have L0: "0 \<le> L"
  proof (rule ccontr)
    assume "\<not> 0 \<le> L"
    then have "L + 1 \<le> 0" by simp
    then have "(2::rat) powi (L + 1) \<le> 2 powi 0" by (intro power_int_increasing) simp_all
    then show False using hi a1 by simp
  qed
  have L53: "L \<le> 53"
  proof (rule ccontr)
    assume "\<not> L \<le> 53"
    then have "54 \<le> L" by simp
    then have "(2::rat) powi 54 \<le> 2 powi L" by (intro power_int_increasing) simp_all
    then show False using lo a53 by simp
  qed
  have e: "e = L - 52" using L0 by (simp add: e_def)
  have m: "of_int (round_half_even (a / 2 powi e)) * 2 powi e = a"
  proof (cases "L \<le> 52")
    case True
    define k where "k = nat (52 - L)"
    have pe: "(2::rat) powi e = 1 / 2 ^ k"
      using True power_int_minus_divide [of "2::rat" "52 - L"]
      by (simp add: e k_def power_int_nonneg_exp)
    have "a / 2 powi e = of_int (\<bar>n\<bar> * 2 ^ k)" by (simp add: pe a_def)
    then have "round_half_even (a / 2 powi e) = \<bar>n\<bar> * 2 ^ k"
      by (simp only: round_half_even_of_int)
    then show ?thesis by (simp add: pe a_def)
  next
    case False
    then have L: "L = 53" using L53 by simp
    then have a': "a = 2 ^ 53" using lo a53 by simp
    have pe: "(2::rat) powi e = 2" by (simp add: e L)
    have "a / 2 powi e = of_int (2 ^ 52)" by (simp add: pe a')
    then have "round_half_even (a / 2 powi e) = 2 ^ 52"
      by (simp only: round_half_even_of_int)
    then show ?thesis by (simp add: pe a')
  qed
  have no: "\<not> 2 powi 1024 \<le> a" using a53 by simp
  have "fl_round (of_int n) = Fin (sgn (of_int n) * a)"
    using False m no by (simp add: fl_round_def Let_def a_def L_def e_def)
  moreover have "sgn (of_int n :: rat) * a = of_int n"
  proof -
    have "a = \<bar>of_int n :: rat\<bar>" by (simp add: a_def)
    then show ?thesis using sgn_mult_abs [of "of_int n :: rat"] by simp
  qed
  ultimately show ?thesis by simp
qed

lemma floor_divide_numeral_rat:
  "\<lfloor>(numeral a :: rat) / numeral b\<rfloor> = numeral a div numeral b"
  by (metis floor_divide_of_int_eq of_int_numeral)

lemma ceiling_divide_numeral_rat:
  "\<lceil>(numeral a :: rat) / numeral b\<rceil> = - ((- numeral a) div numeral b)"
  by (metis ceiling_divide_eq_div of_int_numeral)

lemmas fl_eval = fl_round_def ilog2_def compute_bitlen round_half_even_def Let_def
  floor_divide_numeral_rat ceiling_divide_numeral_rat power_int_minus_divide

subsection \<open>The two folds of calculateTotals\<close>

lemma ToNumber_simps [simp]: "ToNumber None = Fin 0" "ToNumber (Some n) = n"
  by (simp_all add: ToNumber_def)

lemma js_value_simps [simp]: "js_value None = Null" "js_value (Some n) = Num n"
  by (simp_all add: js_value_def)

lemma byCategory_eq: "byCategory (calculateTotals xs) = foldl byCategory_step [] xs"
  by (simp add: calculateTotals_def)

lemma first_occurrences_snoc:
  "first_occurrences (xs @ [x]) = (if x \<in> set xs then first_occurrences xs else first_occurrences xs @ [x])"
  by (simp add: first_occurrences_def)

lemma set_first_occurrences [simp]: "set (first_occurrences xs) = set xs"
  by (simp add: first_occurrences_def)

lemma fl_round_not_NaN [simp]: "fl_round x \<noteq> NaN"
  by (simp add: fl_round_def Let_def)

lemma is_finiteD: "is_finite a \<Longrightarrow> \<exists>q. a = Some (Fin q)"
  by (auto simp: is_finite_def split: option.splits jsnum.splits)

lemma js_add_not_NaN: "s \<noteq> NaN \<Longrightarrow> js_add s (Fin q) \<noteq> NaN"
  by (cases s) simp_all

lemma foldl_js_add_not_NaN:
  "s \<noteq> NaN \<Longrightarrow> list_all (\<lambda>x. is_finite (amount x)) xs \<Longrightarrow>
   foldl js_add s (map (\<lambda>x. ToNumber (amount x)) xs) \<noteq> NaN"
proof (induction xs arbitrary: s)
  case Nil
  then show ?case by simp
next
  case (Cons x xs)
  from Cons.prems(2) obtain q where "amount x = Some (Fin q)" using is_finiteD by fastforce
  then have "js_add s (ToNumber (amount x)) \<noteq> NaN"
    using Cons.prems(1) by (simp add: ToNumber_def js_add_not_NaN)
  then show ?case using Cons by simp
qed

lemma category_sum_not_NaN:
  "list_all (\<lambda>x. is_finite (amount x)) xs \<Longrightarrow> category_sum c xs \<noteq> NaN"
  unfolding category_sum_def
  by (rule foldl_js_add_not_NaN) (simp_all add: list_all_iff)

lemma category_sum_snoc:
  "category_sum c (xs @ [x]) =
     (if category x = c then js_add (category_sum c xs) (ToNumber (amount x))
      else category_sum c xs)"
  by (simp add: category_sum_def)

lemma category_sum_unseen: "c \<notin> category ` set xs \<Longrightarrow> category_sum c xs = Fin 0"
proof -
  assume "c \<notin> category ` set xs"
  then have "filter (\<lambda>x. category x = c) xs = []" by (auto simp: filter_empty_conv)
  then show ?thesis by (simp add: category_sum_def)
qed

lemma js_or_Num: "n \<noteq> NaN \<Longrightarrow> js_or (Num n) (Num (Fin 0)) = Num n"
  by (auto simp: js_or_def ToBoolean_def)

lemma proto_not_own: "k \<notin> set Object_prototype_names \<Longrightarrow> k \<noteq> ''__proto__''"
  by (auto simp: Object_prototype_names_def)

lemma byCategory_invariant:
  assumes "list_all (\<lambda>x. is_finite (amount x) \<and> category x \<notin> set Object_prototype_names) xs"
  shows "map fst (foldl byCategory_step [] xs) = first_occurrences (map category xs)
       \<and> (\<forall>c \<in> category ` set xs. map_of (foldl byCategory_step [] xs) c = Some (Num (category_sum c xs)))"
  using assms
proof (induction xs rule: rev_induct)
  case Nil
  show ?case by (simp add: first_occurrences_def)
next
  case (snoc x xs)
  define acc where "acc = foldl byCategory_step [] xs"
  define k where "k = category x"
  from snoc.prems have fin: "list_all (\<lambda>x. is_finite (amount x)) xs" and fx: "is_finite (amount x)"
    and kp: "k \<notin> set Object_prototype_names"
    and prem: "list_all (\<lambda>x. is_finite (amount x) \<and> category x \<notin> set Object_prototype_names) xs"
    by (simp_all add: list_all_iff k_def)
  from snoc.IH [OF prem] have keys: "map fst acc = first_occurrences (map category xs)"
    and vals: "\<And>c. c \<in> category ` set xs \<Longrightarrow> map_of acc c = Some (Num (category_sum c xs))"
    unfolding acc_def by blast+
  have dom: "k \<in> fst ` set acc \<longleftrightarrow> k \<in> category ` set xs"
  proof -
    have "fst ` set acc = set (map fst acc)" by simp
    also have "\<dots> = category ` set xs" unfolding keys by simp
    finally show ?thesis by simp
  qed
  from fx obtain q where q: "amount x = Some (Fin q)" using is_finiteD by blast
  have new: "js_plus (js_or (Get acc k) (Num (Fin 0))) (js_value (amount x))
             = Num (js_add (category_sum k xs) (ToNumber (amount x)))"
  proof (cases "k \<in> category ` set xs")
    case True
    then have "Get acc k = Num (category_sum k xs)" by (simp add: Get_def vals)
    then show ?thesis using category_sum_not_NaN [OF fin, of k]
      by (simp add: js_or_Num q js_value_def ToNumber_def)
  next
    case False
    then have "map_of acc k = None" using dom by (simp add: map_of_eq_None_iff)
    then have "Get acc k = Undefined" using kp by (simp add: Get_def)
    then show ?thesis using False
      by (simp add: js_or_def ToBoolean_def category_sum_unseen q js_value_def ToNumber_def)
  qed
  define v where "v = Num (js_add (category_sum k xs) (ToNumber (amount x)))"
  have step: "foldl byCategory_step [] (xs @ [x]) = AList.update k v acc"
    using proto_not_own [OF kp] new
    by (simp add: acc_def byCategory_step_def Put_def k_def v_def)
  have k1: "map fst (foldl byCategory_step [] (xs @ [x])) = first_occurrences (map category (xs @ [x]))"
  proof -
    have "map fst (AList.update k v acc) = (if k \<in> set (map fst acc) then map fst acc else map fst acc @ [k])"
      by (rule update_keys)
    also have "\<dots> = (if k \<in> category ` set xs then first_occurrences (map category xs)
                      else first_occurrences (map category xs) @ [k])"
      using dom by (simp add: keys)
    also have "\<dots> = first_occurrences (map category xs @ [k])"
      by (simp add: first_occurrences_snoc)
    finally show ?thesis unfolding step by (simp add: k_def)
  qed
  have k2: "map_of (foldl byCategory_step [] (xs @ [x])) c = Some (Num (category_sum c (xs @ [x])))"
    if "c \<in> category ` set (xs @ [x])" for c
  proof (cases "c = k")
    case True
    then show ?thesis unfolding step by (simp add: update_conv' category_sum_snoc k_def v_def)
  next
    case False
    then have "c \<in> category ` set xs" using that by (auto simp: k_def)
    then show ?thesis using False unfolding step
      by (simp add: update_conv' category_sum_snoc k_def vals)
  qed
  show ?case using k1 k2 by blast
qed

lemma total_eq: "total (calculateTotals xs) = foldl js_add (Fin 0) (map (\<lambda>x. ToNumber (amount x)) xs)"
  by (simp add: calculateTotals_def foldl_map)

lemma exact_sum_snoc [simp]: "exact_sum (xs @ [x]) = exact_sum xs + fin_value (ToNumber (amount x))"
  by (simp add: exact_sum_def)

lemma amount_withinD:
  "amount_within A x \<Longrightarrow> \<exists>a. ToNumber (amount x) = Fin a \<and> \<bar>a\<bar> \<le> A"
  by (auto simp: amount_within_def ToNumber_def split: option.splits jsnum.splits)

lemma exact_sum_bound:
  "list_all (amount_within A) xs \<Longrightarrow> \<bar>exact_sum xs\<bar> \<le> of_nat (length xs) * A"
proof (induction xs rule: rev_induct)
  case Nil
  show ?case by (simp add: exact_sum_def)
next
  case (snoc x xs)
  then have "\<bar>exact_sum xs\<bar> \<le> of_nat (length xs) * A" and "amount_within A x" by simp_all
  moreover from \<open>amount_within A x\<close> obtain a where "ToNumber (amount x) = Fin a" "\<bar>a\<bar> \<le> A"
    using amount_withinD by blast
  ultimately show ?case by (simp add: fin_value_def algebra_simps)
qed

lemma round_step_small:
  fixes y :: rat
  assumes "\<bar>y\<bar> \<le> 1000000001"
  shows "\<bar>y\<bar> / 2 ^ 53 + 1 / 2 ^ 1075 \<le> 1 / 5000000"
proof -
  have "\<bar>y\<bar> / 2 ^ 53 \<le> 1000000001 / 2 ^ 53" using assms by (simp add: divide_right_mono)
  moreover have "(1::rat) / 2 ^ 1075 \<le> 1 / 2 ^ 53"
    by (intro divide_left_mono power_increasing) simp_all
  moreover have "(1000000001::rat) / 2 ^ 53 + 1 / 2 ^ 53 \<le> 1 / 5000000" by simp
  ultimately show ?thesis by linarith
qed

lemma total_error:
  assumes "list_all (amount_within 100000) xs" "length xs \<le> 10000"
  shows "\<exists>s. foldl js_add (Fin 0) (map (\<lambda>x. ToNumber (amount x)) xs) = Fin s
            \<and> \<bar>s - exact_sum xs\<bar> \<le> of_nat (length xs) / 5000000"
  using assms
proof (induction xs rule: rev_induct)
  case Nil
  show ?case by (simp add: exact_sum_def)
next
  case (snoc x xs)
  from snoc.prems have all: "list_all (amount_within 100000) xs" and x: "amount_within 100000 x"
    and len: "length xs < 10000" by simp_all
  from snoc.IH [OF all] len obtain s where s: "foldl js_add (Fin 0) (map (\<lambda>x. ToNumber (amount x)) xs) = Fin s"
    and es: "\<bar>s - exact_sum xs\<bar> \<le> of_nat (length xs) / 5000000" by auto
  from x obtain a where a: "ToNumber (amount x) = Fin a" "\<bar>a\<bar> \<le> 100000" using amount_withinD by blast
  define n :: rat where "n = of_nat (length xs)"
  have n: "0 \<le> n" "n \<le> 9999"
  proof -
    show "0 \<le> n" by (simp add: n_def)
    have "length xs \<le> 9999" using len by simp
    then have "(of_nat (length xs) :: rat) \<le> of_nat 9999" by (simp only: of_nat_le_iff)
    then show "n \<le> 9999" by (simp add: n_def)
  qed
  have S: "\<bar>exact_sum xs\<bar> \<le> n * 100000" using exact_sum_bound [OF all] by (simp add: n_def)
  have es': "\<bar>s - exact_sum xs\<bar> \<le> n / 5000000" using es by (simp add: n_def)
  have "\<bar>s + a\<bar> \<le> 1000000001" using S es' a(2) n by linarith
  then have small: "\<bar>s + a\<bar> / 2 ^ 53 + 1 / 2 ^ 1075 \<le> 1 / 5000000" by (rule round_step_small)
  have "\<bar>s + a\<bar> \<le> 2 ^ 1000"
  proof -
    have "(1000000001::rat) \<le> 2 ^ 30" by simp
    also have "(2::rat) ^ 30 \<le> 2 ^ 1000" by (intro power_increasing) simp_all
    finally show ?thesis using \<open>\<bar>s + a\<bar> \<le> 1000000001\<close> by linarith
  qed
  from fl_round_error [OF this] obtain r where r: "fl_round (s + a) = Fin r"
    and er: "\<bar>r - (s + a)\<bar> \<le> \<bar>s + a\<bar> / 2 ^ 53 + 1 / 2 ^ 1075" by blast
  have er': "\<bar>r - (s + a)\<bar> \<le> 1 / 5000000" using er small by (rule order_trans)
  have "(n + 1) / 5000000 = n / 5000000 + 1 / 5000000" by (simp add: add_divide_distrib)
  then have "\<bar>r - (exact_sum xs + a)\<bar> \<le> (n + 1) / 5000000" using er' es' by linarith
  moreover have "foldl js_add (Fin 0) (map (\<lambda>x. ToNumber (amount x)) (xs @ [x])) = Fin r" by (simp add: s a r)
  moreover have "(of_nat (length (xs @ [x])) :: rat) = n + 1" by (simp add: n_def)
  ultimately show ?case by (simp add: a fin_value_def)
qed

lemma js_add_ints:
  assumes "\<bar>m + n\<bar> \<le> 2 ^ 53"
  shows "js_add (Fin (of_int m)) (Fin (of_int n)) = Fin (of_int (m + n))"
  using fl_round_of_int [OF assms] by simp

lemma whole_amountD: "whole_amount x \<Longrightarrow> \<exists>k. ToNumber (amount x) = Fin (of_int k)"
  by (auto simp: whole_amount_def ToNumber_def split: option.splits jsnum.splits)

lemma whole_amount_finite: "whole_amount x \<Longrightarrow> is_finite (amount x)"
  by (auto simp: whole_amount_def is_finite_def split: option.splits jsnum.splits)

lemma abs_sum_snoc [simp]: "abs_sum (xs @ [x]) = abs_sum xs + \<bar>fin_value (ToNumber (amount x))\<bar>"
  by (simp add: abs_sum_def)

lemma abs_sum_Cons [simp]: "abs_sum (x # xs) = \<bar>fin_value (ToNumber (amount x))\<bar> + abs_sum xs"
  by (simp add: abs_sum_def)

lemma abs_sum_filter: "abs_sum (filter P xs) \<le> abs_sum xs"
proof (induction xs)
  case Nil
  show ?case by simp
next
  case (Cons x xs)
  have "0 \<le> \<bar>fin_value (ToNumber (amount x))\<bar>" by simp
  then show ?case using Cons by (cases "P x") simp_all
qed

lemma exact_fold:
  assumes "list_all whole_amount xs" "abs_sum xs \<le> 2 ^ 53"
  shows "foldl js_add (Fin 0) (map (\<lambda>x. ToNumber (amount x)) xs) = Fin (exact_sum xs)
         \<and> (\<exists>K. exact_sum xs = of_int K \<and> \<bar>of_int K\<bar> \<le> abs_sum xs)"
  using assms
proof (induction xs rule: rev_induct)
  case Nil
  show ?case by (simp add: exact_sum_def abs_sum_def)
next
  case (snoc x xs)
  from snoc.prems have all: "list_all whole_amount xs" and x: "whole_amount x" by simp_all
  from x obtain k where k: "ToNumber (amount x) = Fin (of_int k)" using whole_amountD by blast
  have bound: "abs_sum xs + \<bar>of_int k\<bar> \<le> 2 ^ 53" using snoc.prems(2) by (simp add: k fin_value_def)
  then have "abs_sum xs \<le> 2 ^ 53" by linarith
  from snoc.IH [OF all this] obtain K where f: "foldl js_add (Fin 0) (map (\<lambda>x. ToNumber (amount x)) xs) = Fin (exact_sum xs)"
    and K: "exact_sum xs = of_int K" "\<bar>of_int K\<bar> \<le> abs_sum xs" by blast
  have "\<bar>(of_int (K + k) :: rat)\<bar> \<le> \<bar>of_int K\<bar> + \<bar>of_int k\<bar>" by simp
  then have b: "\<bar>(of_int (K + k) :: rat)\<bar> \<le> abs_sum xs + \<bar>of_int k\<bar>" using K(2) by linarith
  then have "\<bar>(of_int (K + k) :: rat)\<bar> \<le> of_int (2 ^ 53)" using bound by simp
  then have "\<bar>K + k\<bar> \<le> 2 ^ 53" by (simp only: of_int_le_iff flip: of_int_abs)
  then have "js_add (Fin (of_int K)) (Fin (of_int k)) = Fin (of_int (K + k))" by (rule js_add_ints)
  then have "foldl js_add (Fin 0) (map (\<lambda>x. ToNumber (amount x)) (xs @ [x])) = Fin (exact_sum (xs @ [x]))"
    by (simp add: f K(1) k fin_value_def)
  moreover have "exact_sum (xs @ [x]) = of_int (K + k)" by (simp add: K(1) k fin_value_def)
  moreover have "\<bar>(of_int (K + k) :: rat)\<bar> \<le> abs_sum (xs @ [x])" using b by (simp add: k fin_value_def)
  ultimately show ?case by blast
qed

lemma category_sum_exact:
  assumes "list_all whole_amount xs" "abs_sum xs \<le> 2 ^ 53"
  shows "category_sum c xs = Fin (exact_sum (filter (\<lambda>x. category x = c) xs))"
proof -
  have "list_all whole_amount (filter (\<lambda>x. category x = c) xs)"
    using assms(1) by (simp add: list_all_iff)
  moreover have "abs_sum (filter (\<lambda>x. category x = c) xs) \<le> 2 ^ 53"
    using abs_sum_filter [of "\<lambda>x. category x = c" xs] assms(2) by linarith
  ultimately show ?thesis unfolding category_sum_def by (simp add: exact_fold)
qed

lemma alist_values:
  "distinct (map fst al) \<Longrightarrow> map snd al = map (\<lambda>k. the (map_of al k)) (map fst al)"
proof (induction al)
  case Nil
  show ?case by simp
next
  case (Cons p al)
  then have "map snd al = map (\<lambda>k. the (map_of al k)) (map fst al)" by simp
  moreover have "map (\<lambda>k. the (map_of (p # al) k)) (map fst al) = map (\<lambda>k. the (map_of al k)) (map fst al)"
    using Cons.prems by (auto simp: image_iff)
  ultimately show ?case by simp
qed

lemma distinct_first_occurrences [simp]: "distinct (first_occurrences xs)"
  by (simp add: first_occurrences_def)

lemma group_sum:
  fixes f :: "expense \<Rightarrow> rat"
  assumes "finite C" "category ` set xs \<subseteq> C"
  shows "(\<Sum>c\<in>C. sum_list (map f (filter (\<lambda>x. category x = c) xs))) = sum_list (map f xs)"
  using assms(2)
proof (induction xs)
  case Nil
  show ?case by simp
next
  case (Cons x xs)
  then have IH: "(\<Sum>c\<in>C. sum_list (map f (filter (\<lambda>x. category x = c) xs))) = sum_list (map f xs)"
    and mem: "category x \<in> C" by simp_all
  have "(\<Sum>c\<in>C. sum_list (map f (filter (\<lambda>y. category y = c) (x # xs))))
        = (\<Sum>c\<in>C. (if c = category x then f x else 0) + sum_list (map f (filter (\<lambda>y. category y = c) xs)))"
    by (intro sum.cong) auto
  also have "\<dots> = (\<Sum>c\<in>C. if c = category x then f x else 0)
                   + (\<Sum>c\<in>C. sum_list (map f (filter (\<lambda>y. category y = c) xs)))"
    by (rule sum.distrib)
  also have "(\<Sum>c\<in>C. if c = category x then f x else 0) = f x"
    using assms(1) mem by simp
  finally show ?case using IH by simp
qed

lemmas totals_eval = calculateTotals_def byCategory_step_def Put_def Get_def js_or_def ToBoolean_def
  js_value_def ToNumber_def
  Object_prototype_names_def Object_keys_def is_array_index_def array_index_def is_digit_def
  first_occurrences_def expense_of_def

subsection \<open>The model on known values\<close>

text \<open>
  The double nearest to 0.1, the sum \<open>0.1 + 0.2 = 0.30000000000000004\<close>, a tie that
  rounds to the even neighbour, and the calendar fields of 2025-11-02T00:00:00Z, a
  Sunday.
\<close>

lemma fl_round_examples:
  "fl_round (1 / 10) = Fin (3602879701896397 / 36028797018963968)"
  "js_add (fl_round (1 / 10)) (fl_round (2 / 10)) = Fin (1351079888211149 / 4503599627370496)"
  "js_add (Fin 9007199254740993) (Fin 2) = Fin 9007199254740996"
  by (simp_all add: fl_eval)

lemma calendar_examples:
  "YearFromTime 1762041600000 = 2025" "MonthFromTime 1762041600000 = 10"
  "DateFromTime 1762041600000 = 2" "WeekDay 1762041600000 = 0"
  by (simp_all add: calendar_eval)

text \<open>
  The examples of the specification: no records give the total 0 and an empty object;
  10.00 for Food and 20.00 for Rent give the total 30 and one entry for each.
\<close>

lemma calculateTotals_examples:
  "calculateTotals [] = \<lparr> total = Fin 0, byCategory = [] \<rparr>"
  "calculateTotals [expense_of 2 (Fin 10) ''Food'', expense_of 1 (Fin 20) ''Rent'']
     = \<lparr> total = Fin 30, byCategory = [(''Food'', Num (Fin 10)), (''Rent'', Num (Fin 20))] \<rparr>"
  by (simp_all add: totals_eval fl_eval)

text \<open>
  A row whose amount is \<open>null\<close> counts as 0 in the total and in its category.
\<close>

lemma calculateTotals_null_amount:
  "calculateTotals
     [\<lparr> id' = 2, amount = None, category = ''Food'', note' = [], date = [] \<rparr>,
      expense_of 1 (Fin 5) ''Food'']
     = \<lparr> total = Fin 5, byCategory = [(''Food'', Num (Fin 5))] \<rparr>"
  by (simp add: totals_eval fl_eval)

text \<open>
  Why the names of \<open>Object.prototype\<close> are set apart: the category \<open>__proto__\<close> is never
  stored, and the category \<open>constructor\<close> gets a string, the text of the inherited
  function followed by the amount.
\<close>

lemma calculateTotals_prototype_names:
  "calculateTotals [expense_of 1 (Fin 5) ''__proto__''] = \<lparr> total = Fin 5, byCategory = [] \<rparr>"
  "calculateTotals [expense_of 1 (Fin 5) ''constructor'']
     = \<lparr> total = Fin 5, byCategory = [(''constructor'', Str)] \<rparr>"
  by (simp_all add: totals_eval fl_eval)

section \<open>Properties of getFilteredExpenses\<close>

text \<open>
  C6. With the selector \<open>All\<close> the filter returns the list it was given: every record,
  unchanged, in the original order.
\<close>

theorem getFilteredExpenses_All_identity:
  "getFilteredExpenses env now ''All'' expenses = expenses"
  by (simp add: getFilteredExpenses_def)

text \<open>
  C7. For every selector the result is a subsequence of the input: its records are
  records of the input, in the input's relative order.
\<close>

theorem getFilteredExpenses_subseq:
  "subseq (getFilteredExpenses env now filter' expenses) expenses"
  by (simp add: getFilteredExpenses_def Let_def)

text \<open>
  C8. The filter has no failing path: \<open>new Date\<close> of a text that is not a date is an
  Invalid Date, and a comparison with it is false. So for every list, every selector
  and every clock reading a list comes back, never longer than the input, and a record
  whose date does not parse is left out by \<open>Week\<close> and by \<open>Month\<close> and kept by every
  other selector.
\<close>

theorem getFilteredExpenses_unparseable_date:
  "length (getFilteredExpenses env now filter' expenses) \<le> length expenses
   \<and> (\<forall>ex \<in> set expenses. Date_parse env (date ex) = None \<longrightarrow>
         (ex \<in> set (getFilteredExpenses env now filter' expenses)
            \<longleftrightarrow> filter' \<noteq> ''Week'' \<and> filter' \<noteq> ''Month''))"
  by (auto simp: getFilteredExpenses_def Let_def date_ge_def)

text \<open>
  C8, witness: the row dated \<open>yesterday\<close> among the example rows is dropped by \<open>Week\<close>
  and \<open>Month\<close> and kept by \<open>All\<close>.
\<close>

theorem getFilteredExpenses_unparseable_date_witness:
  "dated_row 5 ''yesterday'' \<in> set demo_rows \<and> Date_parse demo_env (date (dated_row 5 ''yesterday'')) = None
   \<and> dated_row 5 ''yesterday'' \<notin> set (getFilteredExpenses demo_env 1762336800000 ''Week'' demo_rows)
   \<and> dated_row 5 ''yesterday'' \<notin> set (getFilteredExpenses demo_env 1762336800000 ''Month'' demo_rows)
   \<and> dated_row 5 ''yesterday'' \<in> set (getFilteredExpenses demo_env 1762336800000 ''All'' demo_rows)"
proof -
  have m: "dated_row 5 ''yesterday'' \<in> set demo_rows" by (simp add: demo_rows_def)
  have n: "Date_parse demo_env (date (dated_row 5 ''yesterday'')) = None"
    by (simp add: demo_env_def dated_row_def)
  show ?thesis
    using m n
      getFilteredExpenses_unparseable_date [of demo_env 1762336800000 "''Week''" demo_rows]
      getFilteredExpenses_unparseable_date [of demo_env 1762336800000 "''Month''" demo_rows]
      getFilteredExpenses_unparseable_date [of demo_env 1762336800000 "''All''" demo_rows]
    by simp
qed



text \<open>
  C5. With the selector \<open>Month\<close> the filter returns exactly the records whose date
  parses to a time value on or after local time 00:00:00.000 on day 1 of the month and
  year of now: the bound is inclusive and there is no upper bound. \<open>new Date(year,
  month, 1)\<close> reads a year from 0 to 99 as 1900 + year, so the year of now is taken
  outside that range, as every clock reading is.
\<close>

theorem getFilteredExpenses_Month:
  assumes "\<not> (0 \<le> YearFromTime (LocalTime env now) \<and> YearFromTime (LocalTime env now) \<le> 99)"
  shows "getFilteredExpenses env now ''Month'' expenses =
           filter (\<lambda>ex. case Date_parse env (date ex) of
                          None \<Rightarrow> False
                        | Some t \<Rightarrow> UTC env (month_first (LocalTime env now)) \<le> t) expenses
       \<and> YearFromTime (month_first (LocalTime env now)) = YearFromTime (LocalTime env now)
       \<and> MonthFromTime (month_first (LocalTime env now)) = MonthFromTime (LocalTime env now)
       \<and> DateFromTime (month_first (LocalTime env now)) = 1
       \<and> TimeWithinDay (month_first (LocalTime env now)) = 0"
proof -
  let ?lt = "LocalTime env now"
  have "Date_of_fields env (getFullYear env now) (getMonth env now) 1 = UTC env (month_first ?lt)"
    using assms by (rule startOfMonth_eq)
  then have "getFilteredExpenses env now ''Month'' expenses =
           filter (\<lambda>ex. case Date_parse env (date ex) of
                          None \<Rightarrow> False
                        | Some t \<Rightarrow> UTC env (month_first ?lt) \<le> t) expenses"
    by (simp add: getFilteredExpenses_def date_ge_def Let_def)
  moreover have "TimeWithinDay (month_first ?lt) = 0" by (simp add: month_first_def)
  ultimately show ?thesis
    by (simp add: YearFromTime_month_first MonthFromTime_month_first DateFromTime_month_first)
qed

text \<open>
  C5, witness: in November 2025 local time the month starts at 2025-10-31T19:00:00Z;
  the row dated exactly then and the row dated in 2026 are kept, the row one
  millisecond before the boundary is dropped.
\<close>

theorem getFilteredExpenses_Month_witness:
  "YearFromTime (LocalTime demo_env 1762336800000) = 2025
   \<and> UTC demo_env (month_first (LocalTime demo_env 1762336800000)) = 1761937200000
   \<and> getFilteredExpenses demo_env 1762336800000 ''Month'' demo_rows =
       [dated_row 7 ''2026-01-01T00:00:00.000Z'', dated_row 6 ''2025-11-05T04:00:00.000Z'',
        dated_row 4 ''2025-11-01T19:00:00.000Z'', dated_row 3 ''2025-11-01T18:59:59.999Z'',
        dated_row 2 ''2025-10-31T19:00:00.000Z'']"
proof -
  have y: "YearFromTime (LocalTime demo_env 1762336800000) = 2025"
    by (simp add: demo_env_def calendar_eval)
  have h: "\<not> (0 \<le> YearFromTime (LocalTime demo_env 1762336800000)
              \<and> YearFromTime (LocalTime demo_env 1762336800000) \<le> 99)"
    by (simp add: y)
  have u: "UTC demo_env (month_first (LocalTime demo_env 1762336800000)) = 1761937200000"
    by (simp add: month_first_def demo_env_def calendar_eval)
  have p: "Date_parse demo_env = map_of
         [(''2025-11-05T04:00:00.000Z'', 1762315200000),
          (''2025-11-01T19:00:00.000Z'', 1762023600000),
          (''2025-11-01T18:59:59.999Z'', 1762023599999),
          (''2025-10-31T19:00:00.000Z'', 1761937200000),
          (''2025-10-31T18:59:59.999Z'', 1761937199999),
          (''2026-01-01T00:00:00.000Z'', 1767225600000)]"
    by (simp add: demo_env_def)
  show ?thesis
    using getFilteredExpenses_Month [OF h, of demo_rows]
    by (simp add: y u p demo_rows_def dated_row_def)
qed

section \<open>Properties of calculateTotals\<close>

text \<open>
  C1, as stated, fails: the total is accumulated with binary64 additions, each rounded.
  For the amounts 9007199254740992 and 1 the total is 9007199254740992, one whole unit
  below the exact sum.
\<close>

theorem calculateTotals_total_counterexample:
  "total (calculateTotals [expense_of 2 (Fin 9007199254740992) ''Rent'', expense_of 1 (Fin 1) ''Food''])
     = Fin 9007199254740992
   \<and> exact_sum [expense_of 2 (Fin 9007199254740992) ''Rent'', expense_of 1 (Fin 1) ''Food'']
     = 9007199254740993"
  by (simp add: totals_eval exact_sum_def fin_value_def fl_eval)

text \<open>
  C1, amended. For at most 10,000 records whose amounts are finite and at most 100,000
  in magnitude, the total is a finite Number that differs from the exact sum of the
  amounts by less than half a minor unit (0.005).
\<close>

theorem calculateTotals_total_accuracy:
  assumes "length xs \<le> 10000" and "list_all (amount_within 100000) xs"
  shows "\<exists>s. total (calculateTotals xs) = Fin s \<and> \<bar>s - exact_sum xs\<bar> < 1 / 200"
proof -
  from total_error [OF assms(2,1)] obtain s where s: "foldl js_add (Fin 0) (map (\<lambda>x. ToNumber (amount x)) xs) = Fin s"
    and e: "\<bar>s - exact_sum xs\<bar> \<le> of_nat (length xs) / 5000000" by blast
  have "(of_nat (length xs) :: rat) \<le> of_nat 10000" using assms(1) by (simp only: of_nat_le_iff)
  then have "(of_nat (length xs) :: rat) / 5000000 \<le> 10000 / 5000000"
    by (simp add: divide_right_mono)
  then have "\<bar>s - exact_sum xs\<bar> < 1 / 200" using e by simp
  then show ?thesis using s by (simp add: total_eq)
qed

text \<open>
  C1, witness: 10,000 records of value 0.01 (the binary64 value nearest to it).
\<close>

theorem calculateTotals_total_accuracy_witness:
  "length (replicate 10000 (expense_of 1 (Fin (5764607523034235 / 576460752303423488)) ''Food'')) \<le> 10000
   \<and> list_all (amount_within 100000)
        (replicate 10000 (expense_of 1 (Fin (5764607523034235 / 576460752303423488)) ''Food''))
   \<and> fl_round (1 / 100) = Fin (5764607523034235 / 576460752303423488)
   \<and> (\<exists>s. total (calculateTotals
              (replicate 10000 (expense_of 1 (Fin (5764607523034235 / 576460752303423488)) ''Food'')))
            = Fin s
          \<and> \<bar>s - 10000 * (5764607523034235 / 576460752303423488)\<bar> < 1 / 200)"
proof -
  let ?xs = "replicate 10000 (expense_of 1 (Fin (5764607523034235 / 576460752303423488)) ''Food'')"
  have l: "length ?xs \<le> 10000" by simp
  have b: "list_all (amount_within 100000) ?xs"
    by (simp add: list_all_iff amount_within_def expense_of_def)
  have e: "exact_sum ?xs = 10000 * (5764607523034235 / 576460752303423488)"
    by (simp add: exact_sum_def fin_value_def expense_of_def sum_list_replicate)
  have d: "fl_round (1 / 100) = Fin (5764607523034235 / 576460752303423488)"
    by (simp add: fl_eval)
  from calculateTotals_total_accuracy [OF l b] obtain s
    where "total (calculateTotals ?xs) = Fin s" "\<bar>s - exact_sum ?xs\<bar> < 1 / 200" by blast
  then have "\<exists>s. total (calculateTotals ?xs) = Fin s
          \<and> \<bar>s - 10000 * (5764607523034235 / 576460752303423488)\<bar> < 1 / 200"
    unfolding e by blast
  with l b d show ?thesis by blast
qed

text \<open>
  C3, as stated, fails on a category that is an array index: \<open>Object.keys\<close> lists
  \<open>2024\<close> before \<open>Food\<close> although \<open>Food\<close> occurs first.
\<close>

theorem byCategory_keys_counterexample:
  "Object_keys (byCategory (calculateTotals
      [expense_of 2 (Fin 10) ''Food'', expense_of 1 (Fin 5) ''2024'']))
     = [''2024'', ''Food'']
   \<and> first_occurrences (map category
      [expense_of 2 (Fin 10) ''Food'', expense_of 1 (Fin 5) ''2024''])
     = [''Food'', ''2024'']"
  by (simp add: totals_eval fl_eval)

text \<open>
  C3, amended. When the amounts are finite and no category is the name of a property
  of \<open>Object.prototype\<close>, the keys of \<open>byCategory\<close> are the categories of the list:
  first those that are array indices, in ascending numeric order, then the others in
  the order of their first occurrence; and each category maps to the sum of the
  amounts of its records, added from left to right as Numbers.
\<close>

theorem byCategory_keys_and_sums:
  assumes "list_all (\<lambda>x. is_finite (amount x) \<and> category x \<notin> set Object_prototype_names) xs"
  shows "Object_keys (byCategory (calculateTotals xs)) =
           sort_key array_index (filter is_array_index (first_occurrences (map category xs)))
           @ filter (\<lambda>k. \<not> is_array_index k) (first_occurrences (map category xs))
       \<and> (\<forall>c \<in> category ` set xs.
            Get (byCategory (calculateTotals xs)) c = Num (category_sum c xs))"
  using byCategory_invariant [OF assms]
  by (simp add: byCategory_eq Object_keys_def Get_def Let_def)

text \<open>
  C3, witness: three records of the categories \<open>Food\<close>, \<open>2024\<close>, \<open>Food\<close>.
\<close>

theorem byCategory_keys_and_sums_witness:
  "list_all (\<lambda>x. is_finite (amount x) \<and> category x \<notin> set Object_prototype_names)
     [expense_of 3 (Fin 10) ''Food'', expense_of 2 (Fin 5) ''2024'', expense_of 1 (Fin 2) ''Food'']
   \<and> Object_keys (byCategory (calculateTotals
        [expense_of 3 (Fin 10) ''Food'', expense_of 2 (Fin 5) ''2024'', expense_of 1 (Fin 2) ''Food'']))
      = [''2024'', ''Food'']
   \<and> Get (byCategory (calculateTotals
        [expense_of 3 (Fin 10) ''Food'', expense_of 2 (Fin 5) ''2024'', expense_of 1 (Fin 2) ''Food'']))
        ''Food'' = Num (Fin 12)"
proof -
  let ?xs = "[expense_of 3 (Fin 10) ''Food'', expense_of 2 (Fin 5) ''2024'', expense_of 1 (Fin 2) ''Food'']"
  have h: "list_all (\<lambda>x. is_finite (amount x) \<and> category x \<notin> set Object_prototype_names) ?xs"
    by (simp add: is_finite_def Object_prototype_names_def expense_of_def)
  have s: "category_sum ''Food'' ?xs = Fin 12"
    by (simp add: category_sum_def expense_of_def fl_eval)
  have k: "sort_key array_index (filter is_array_index (first_occurrences (map category ?xs)))
           @ filter (\<lambda>k. \<not> is_array_index k) (first_occurrences (map category ?xs)) = [''2024'', ''Food'']"
    by (simp add: first_occurrences_def is_array_index_def array_index_def is_digit_def expense_of_def)
  have m: "''Food'' \<in> category ` set ?xs" by (simp add: expense_of_def)
  from byCategory_keys_and_sums [OF h]
  have "Object_keys (byCategory (calculateTotals ?xs)) = [''2024'', ''Food'']"
    and g: "\<forall>c \<in> category ` set ?xs. Get (byCategory (calculateTotals ?xs)) c = Num (category_sum c ?xs)"
    unfolding k by blast+
  moreover from g m have "Get (byCategory (calculateTotals ?xs)) ''Food'' = Num (category_sum ''Food'' ?xs)"
    by blast
  ultimately show ?thesis using h unfolding s by blast
qed

text \<open>
  C10, as stated, fails: for the amounts 0.1 (category A), 0.2 and 0.3 (category B),
  each the nearest binary64 value, the total is 0.6000000000000001 while the values of
  \<open>byCategory\<close> are 0.1 and 0.5; their exact sum is a different number, and so is their
  sum as Numbers, 0.6.
\<close>

theorem total_eq_sum_values_counterexample:
  "total (calculateTotals
      [expense_of 3 (fl_round (1 / 10)) ''A'', expense_of 2 (fl_round (2 / 10)) ''B'',
       expense_of 1 (fl_round (3 / 10)) ''B''])
     = Fin (1351079888211149 / 2251799813685248)
   \<and> byCategory (calculateTotals
      [expense_of 3 (fl_round (1 / 10)) ''A'', expense_of 2 (fl_round (2 / 10)) ''B'',
       expense_of 1 (fl_round (3 / 10)) ''B''])
     = [(''A'', Num (Fin (3602879701896397 / 36028797018963968))), (''B'', Num (Fin (1 / 2)))]
   \<and> sum_values [(''A'', Num (Fin (3602879701896397 / 36028797018963968))), (''B'', Num (Fin (1 / 2)))]
     = 21617278211378381 / 36028797018963968
   \<and> js_add (js_add (Fin 0) (Fin (3602879701896397 / 36028797018963968))) (Fin (1 / 2))
     = Fin (5404319552844595 / 9007199254740992)"
  by (simp add: totals_eval sum_values_def num_value_def fin_value_def fl_eval)

text \<open>
  C10, amended. When every amount is a whole number, the absolute values of the amounts
  add up to at most \<open>2\<^sup>5\<^sup>3\<close> (so that no addition rounds) and no category is the name
  of a property of \<open>Object.prototype\<close>, the total equals the sum of the values of
  \<open>byCategory\<close>.
\<close>

theorem total_eq_sum_values:
  assumes "list_all (\<lambda>x. whole_amount x \<and> category x \<notin> set Object_prototype_names) xs"
    and "abs_sum xs \<le> 2 ^ 53"
  shows "total (calculateTotals xs) = Fin (sum_values (byCategory (calculateTotals xs)))"
proof -
  define obj where "obj = foldl byCategory_step [] xs"
  define keys where "keys = first_occurrences (map category xs)"
  have whole: "list_all whole_amount xs" using assms(1) by (simp add: list_all_iff)
  have "list_all (\<lambda>x. is_finite (amount x) \<and> category x \<notin> set Object_prototype_names) xs"
    using assms(1) whole_amount_finite by (simp add: list_all_iff)
  from byCategory_invariant [OF this]
  have k: "map fst obj = keys"
    and v: "\<And>c. c \<in> category ` set xs \<Longrightarrow> map_of obj c = Some (Num (category_sum c xs))"
    unfolding obj_def keys_def by blast+
  have d: "distinct (map fst obj)" by (simp add: k keys_def)
  have ks: "set keys = category ` set xs" by (simp add: keys_def)
  have "sum_values obj = sum_list (map num_value (map snd obj))"
    by (simp add: sum_values_def comp_def)
  also have "map snd obj = map (\<lambda>c. the (map_of obj c)) keys"
    using alist_values [OF d] by (simp add: k)
  also have "map num_value (map (\<lambda>c. the (map_of obj c)) keys)
             = map (\<lambda>c. exact_sum (filter (\<lambda>x. category x = c) xs)) keys"
    using ks by (auto simp: v category_sum_exact [OF whole assms(2)] num_value_def fin_value_def)
  also have "sum_list (map (\<lambda>c. exact_sum (filter (\<lambda>x. category x = c) xs)) keys)
             = (\<Sum>c\<in>set keys. exact_sum (filter (\<lambda>x. category x = c) xs))"
    using d by (simp add: k sum_list_distinct_conv_sum_set)
  also have "\<dots> = exact_sum xs"
    unfolding exact_sum_def by (rule group_sum) (simp_all add: ks)
  finally have "sum_values obj = exact_sum xs" .
  moreover have "total (calculateTotals xs) = Fin (exact_sum xs)"
    using exact_fold [OF whole assms(2)] by (simp add: total_eq)
  ultimately show ?thesis by (simp add: byCategory_eq obj_def)
qed

text \<open>
  C10, witness: the amounts 10, 5 and 2 in the categories \<open>Food\<close>, \<open>2024\<close>, \<open>Food\<close>.
\<close>

theorem total_eq_sum_values_witness:
  "list_all (\<lambda>x. whole_amount x \<and> category x \<notin> set Object_prototype_names)
     [expense_of 3 (Fin 10) ''Food'', expense_of 2 (Fin 5) ''2024'', expense_of 1 (Fin 2) ''Food'']
   \<and> abs_sum [expense_of 3 (Fin 10) ''Food'', expense_of 2 (Fin 5) ''2024'', expense_of 1 (Fin 2) ''Food'']
       \<le> 2 ^ 53
   \<and> total (calculateTotals
        [expense_of 3 (Fin 10) ''Food'', expense_of 2 (Fin 5) ''2024'', expense_of 1 (Fin 2) ''Food''])
      = Fin 17
   \<and> sum_values (byCategory (calculateTotals
        [expense_of 3 (Fin 10) ''Food'', expense_of 2 (Fin 5) ''2024'', expense_of 1 (Fin 2) ''Food'']))
      = 17"
proof -
  let ?xs = "[expense_of 3 (Fin 10) ''Food'', expense_of 2 (Fin 5) ''2024'', expense_of 1 (Fin 2) ''Food'']"
  have h: "list_all (\<lambda>x. whole_amount x \<and> category x \<notin> set Object_prototype_names) ?xs"
    by (simp add: whole_amount_def Object_prototype_names_def expense_of_def)
  have a: "abs_sum ?xs \<le> 2 ^ 53"
    by (simp add: abs_sum_def fin_value_def expense_of_def)
  have t: "total (calculateTotals ?xs) = Fin 17"
    by (simp add: calculateTotals_def expense_of_def fl_eval)
  from total_eq_sum_values [OF h a] have "sum_values (byCategory (calculateTotals ?xs)) = 17"
    unfolding t by simp
  with h a t show ?thesis by blast
qed

section \<open>Properties of saveExpense\<close>




text \<open>
  C9. While the row with id \<open>i\<close> is being edited, \<open>saveExpense\<close> returns normally and
  the table keeps its rows: every row keeps its id and its date, every row with another
  id is unchanged, and a row with id \<open>i\<close> changes in nothing but its amount, category
  and note (or not at all, when a form field is empty).
\<close>

theorem saveExpense_edit_frame:
  assumes "editingId st = Some i" "i \<noteq> 0"
  shows "case saveExpense env now (st, db) of
           Inl e \<Rightarrow> False
         | Inr (st', db') \<Rightarrow>
             length (rows db') = length (rows db) \<and>
             (\<forall>k < length (rows db).
                id' (rows db' ! k) = id' (rows db ! k) \<and>
                date (rows db' ! k) = date (rows db ! k) \<and>
                (if id' (rows db ! k) = i
                 then form_amount st = [] \<or> form_category st = [] \<or>
                      rows db' ! k = (rows db ! k)\<lparr> amount := sql_real (parseFloat env (form_amount st)),
                                       category := form_category st, note' := form_note st \<rparr>
                 else rows db' ! k = rows db ! k))"
  using assms
  by (auto simp: saveExpense_def Let_def truthy_id_def sql_update_def split: if_splits)

text \<open>
  C9, witness: editing row 2 of the example table.
\<close>

theorem saveExpense_edit_frame_witness:
  "editingId (demo_state ''12.50'' ''Taxi'' (Some 2)) = Some 2
   \<and> (\<exists>st'. saveExpense demo_env 1762336800000 (demo_state ''12.50'' ''Taxi'' (Some 2), demo_db)
        = Inr (st',
            \<lparr> rows = [\<lparr> id' = 1, amount = Some (Fin 10), category = ''Food'', note' = ''lunch'',
                         date = ''2025-10-31T19:00:00.000Z'' \<rparr>,
                      \<lparr> id' = 2, amount = Some (Fin (25 / 2)), category = ''Taxi'', note' = ''taxi'',
                         date = ''2025-11-01T19:00:00.000Z'' \<rparr>],
              seq = 2 \<rparr>))"
proof -
  have e: "editingId (demo_state ''12.50'' ''Taxi'' (Some 2)) = Some 2" by (simp add: demo_state_def)
  have z: "(2::int) \<noteq> 0" by simp
  have r: "\<exists>st'. saveExpense demo_env 1762336800000 (demo_state ''12.50'' ''Taxi'' (Some 2), demo_db)
        = Inr (st',
            \<lparr> rows = [\<lparr> id' = 1, amount = Some (Fin 10), category = ''Food'', note' = ''lunch'',
                         date = ''2025-10-31T19:00:00.000Z'' \<rparr>,
                      \<lparr> id' = 2, amount = Some (Fin (25 / 2)), category = ''Taxi'', note' = ''taxi'',
                         date = ''2025-11-01T19:00:00.000Z'' \<rparr>],
              seq = 2 \<rparr>)"
    using saveExpense_edit_frame [where env = demo_env and now = 1762336800000 and db = demo_db, OF e z]
    by (simp add: saveExpense_def demo_state_def demo_db_def demo_env_def truthy_id_def
        sql_update_def sql_real_def Let_def)
  with e show ?thesis by blast
qed

end
